theory Spec2Isabelle
  imports Complex_Main "HOL-Library.Sublist"
begin

section \<open>Strings\<close>

text \<open>
  A JavaScript string is a sequence of code units. The metrics compare code units for
  equality and, in three places, against the space, the newline and the white-space class
  of regular expressions. A string is modelled as a \<^typ>\<open>string\<close>, one \<^typ>\<open>char\<close> per
  code unit; the white-space class is the part of \<^verbatim>\<open>\s\<close> below 256: tab, line feed,
  vertical tab, form feed, carriage return, space and no-break space.
\<close>

definition space :: char where
  "space = CHR '' ''"

definition newline :: char where
  "newline = CHR 0x0A"

definition isWhitespace :: "char \<Rightarrow> bool" where
  "isWhitespace c \<longleftrightarrow>
     c = CHR 0x09 \<or> c = CHR 0x0A \<or> c = CHR 0x0B \<or> c = CHR 0x0C \<or> c = CHR 0x0D \<or>
     c = CHR 0x20 \<or> c = CHR 0xA0"

definition padEnd :: "string \<Rightarrow> nat \<Rightarrow> string" where
  \<comment> \<open>\<^verbatim>\<open>str.padEnd(n, ' ')\<close>: the string itself when it already has \<open>n\<close> code units.\<close>
  "padEnd s n = s @ replicate (n - length s) space"

fun splitOn :: "char \<Rightarrow> string \<Rightarrow> string list" where
  \<comment> \<open>\<^verbatim>\<open>str.split(sep)\<close> for a separator of one code unit; never the empty list.\<close>
  "splitOn sep [] = [[]]"
| "splitOn sep (c # cs) =
     (if c = sep then [] # splitOn sep cs
      else (case splitOn sep cs of
              [] \<Rightarrow> [[c]]
            | w # ws \<Rightarrow> (c # w) # ws))"

function splitWhitespace :: "string \<Rightarrow> string list" where
  \<comment> \<open>\<^verbatim>\<open>str.split(/\s+/)\<close>: each maximal run of white space is one separator.\<close>
  "splitWhitespace [] = [[]]"
| "splitWhitespace (c # cs) =
     (if isWhitespace c then [] # splitWhitespace (dropWhile isWhitespace cs)
      else (case splitWhitespace cs of
              [] \<Rightarrow> [[c]]
            | w # ws \<Rightarrow> (c # w) # ws))"
  by pat_completeness auto
termination
  by (relation "measure length") (auto simp: length_dropWhile_le less_Suc_eq_le)

definition trim :: "string \<Rightarrow> string" where
  \<comment> \<open>\<^verbatim>\<open>str.trim()\<close>\<close>
  "trim s = rev (dropWhile isWhitespace (rev (dropWhile isWhitespace s)))"

definition setCell :: "'a list list \<Rightarrow> nat \<Rightarrow> nat \<Rightarrow> 'a \<Rightarrow> 'a list list" where
  \<comment> \<open>the assignment \<^verbatim>\<open>matrix[i][j] = v\<close> inside the bounds of the table\<close>
  "setCell matrix i j v = matrix[i := (matrix ! i)[j := v]]"

section \<open>Hamming distance\<close>

function hammingLoop :: "string \<Rightarrow> string \<Rightarrow> nat \<Rightarrow> nat \<Rightarrow> nat \<Rightarrow> nat" where
  "hammingLoop padded1 padded2 maxLen i distance =
     (if i < maxLen
      then hammingLoop padded1 padded2 maxLen (i + 1)
             (if padded1 ! i \<noteq> padded2 ! i then distance + 1 else distance)
      else distance)"
  by pat_completeness auto
termination
  by (relation "measure (\<lambda>(p1, p2, maxLen, i, d). maxLen - i)") auto

declare hammingLoop.simps [simp del]

definition hammingDistance :: "string \<Rightarrow> string \<Rightarrow> nat" where
  "hammingDistance str1 str2 =
     (let len1 = length str1;
          len2 = length str2;
          maxLen = max len1 len2;
          padded1 = padEnd str1 maxLen;
          padded2 = padEnd str2 maxLen
      in hammingLoop padded1 padded2 maxLen 0 0)"

section \<open>Character count difference\<close>

definition calculateAdditions :: "string \<Rightarrow> string \<Rightarrow> int" where
  "calculateAdditions str1 str2 = int (length str2) - int (length str1)"

section \<open>Damerau-Levenshtein distance\<close>

function dlInitColumn :: "nat \<Rightarrow> nat \<Rightarrow> nat list list \<Rightarrow> nat list list" where
  \<comment> \<open>\<^verbatim>\<open>for (let i = 0; i <= len1; i++) matrix[i][0] = i;\<close>\<close>
  "dlInitColumn len1 i matrix =
     (if i \<le> len1 then dlInitColumn len1 (i + 1) (setCell matrix i 0 i) else matrix)"
  by pat_completeness auto
termination
  by (relation "measure (\<lambda>(len1, i, m). Suc len1 - i)") auto

function dlInitRow :: "nat \<Rightarrow> nat \<Rightarrow> nat list list \<Rightarrow> nat list list" where
  \<comment> \<open>\<^verbatim>\<open>for (let j = 0; j <= len2; j++) matrix[0][j] = j;\<close>\<close>
  "dlInitRow len2 j matrix =
     (if j \<le> len2 then dlInitRow len2 (j + 1) (setCell matrix 0 j j) else matrix)"
  by pat_completeness auto
termination
  by (relation "measure (\<lambda>(len2, j, m). Suc len2 - j)") auto

definition dlCell :: "string \<Rightarrow> string \<Rightarrow> nat \<Rightarrow> nat \<Rightarrow> nat list list \<Rightarrow> nat list list" where
  \<comment> \<open>the body of the inner loop: the three edit operations, then the transposition\<close>
  "dlCell str1 str2 i j matrix =
     (let cost = (if str1 ! (i - 1) = str2 ! (j - 1) then 0 else 1);
          matrix1 = setCell matrix i j
            (min (matrix ! (i - 1) ! j + 1)
               (min (matrix ! i ! (j - 1) + 1)
                    (matrix ! (i - 1) ! (j - 1) + cost)))
      in if i > 1 \<and> j > 1 \<and>
            str1 ! (i - 1) = str2 ! (j - 2) \<and>
            str1 ! (i - 2) = str2 ! (j - 1)
         then setCell matrix1 i j (min (matrix1 ! i ! j) (matrix1 ! (i - 2) ! (j - 2) + cost))
         else matrix1)"

function dlInner :: "string \<Rightarrow> string \<Rightarrow> nat \<Rightarrow> nat \<Rightarrow> nat list list \<Rightarrow> nat list list" where
  "dlInner str1 str2 i j matrix =
     (if j \<le> length str2
      then dlInner str1 str2 i (j + 1) (dlCell str1 str2 i j matrix)
      else matrix)"
  by pat_completeness auto
termination
  by (relation "measure (\<lambda>(s1, s2, i, j, m). Suc (length s2) - j)") auto

function dlOuter :: "string \<Rightarrow> string \<Rightarrow> nat \<Rightarrow> nat list list \<Rightarrow> nat list list" where
  "dlOuter str1 str2 i matrix =
     (if i \<le> length str1
      then dlOuter str1 str2 (i + 1) (dlInner str1 str2 i 1 matrix)
      else matrix)"
  by pat_completeness auto
termination
  by (relation "measure (\<lambda>(s1, s2, i, m). Suc (length s1) - i)") auto

declare dlInitColumn.simps [simp del] dlInitRow.simps [simp del]
  dlInner.simps [simp del] dlOuter.simps [simp del]

definition dlMatrix :: "string \<Rightarrow> string \<Rightarrow> nat list list" where
  \<comment> \<open>the matrix after creation, initialisation and filling\<close>
  "dlMatrix str1 str2 =
     (let len1 = length str1;
          len2 = length str2;
          matrix = replicate (len1 + 1) (replicate (len2 + 1) 0);
          matrix = dlInitColumn len1 0 matrix;
          matrix = dlInitRow len2 0 matrix
      in dlOuter str1 str2 1 matrix)"

definition damerauLevenshtein :: "string \<Rightarrow> string \<Rightarrow> nat" where
  "damerauLevenshtein str1 str2 =
     (let len1 = length str1;
          len2 = length str2
      in if len1 = 0 then len2
         else if len2 = 0 then len1
         else dlMatrix str1 str2 ! len1 ! len2)"

section \<open>Jaro-Winkler distance\<close>

text \<open>
  The numbers of the source are IEEE doubles. Lengths, counts and indices are small
  integers, exact in a double, and are modelled by \<^typ>\<open>nat\<close> and \<^typ>\<open>int\<close>; the
  arithmetic of the Jaro-Winkler formula is modelled over \<^typ>\<open>real\<close>, without rounding.

  The loop \<^verbatim>\<open>while (!str2Matches[k]) k++\<close> reads past the end of the array as
  \<^verbatim>\<open>undefined\<close>, which is falsy, so it never stops once \<open>k\<close> is out of range: the
  result \<open>None\<close> stands for a run that does not return.
\<close>

record jw_state =
  str1Matches :: "bool list"
  str2Matches :: "bool list"
  matches :: nat

function jwScan :: "string \<Rightarrow> string \<Rightarrow> nat \<Rightarrow> nat \<Rightarrow> nat \<Rightarrow> jw_state \<Rightarrow> jw_state" where
  \<comment> \<open>the inner loop over \<open>j\<close>, from \<open>start\<close> up to \<open>end\<close>, left at the first match\<close>
  "jwScan str1 str2 i end j st =
     (if j < end
      then (if str2Matches st ! j \<or> str1 ! i \<noteq> str2 ! j
            then jwScan str1 str2 i end (j + 1) st
            else st\<lparr>str1Matches := (str1Matches st)[i := True],
                    str2Matches := (str2Matches st)[j := True],
                    matches := matches st + 1\<rparr>)
      else st)"
  by pat_completeness auto
termination
  by (relation "measure (\<lambda>(s1, s2, i, e, j, st). e - j)") auto

function jwMatchLoop :: "string \<Rightarrow> string \<Rightarrow> int \<Rightarrow> nat \<Rightarrow> jw_state \<Rightarrow> jw_state" where
  \<comment> \<open>the outer loop over \<open>i\<close>; \<open>start\<close> and \<open>end\<close> are never negative\<close>
  "jwMatchLoop str1 str2 matchWindow i st =
     (if i < length str1
      then (let start = nat (max 0 (int i - matchWindow));
                end = nat (min (int i + matchWindow + 1) (int (length str2)))
            in jwMatchLoop str1 str2 matchWindow (i + 1) (jwScan str1 str2 i end start st))
      else st)"
  by pat_completeness auto
termination
  by (relation "measure (\<lambda>(s1, s2, w, i, st). length s1 - i)") auto

definition jwFindMatches :: "string \<Rightarrow> string \<Rightarrow> jw_state" where
  "jwFindMatches str1 str2 =
     (let matchWindow = int (max (length str1) (length str2) div 2) - 1
      in jwMatchLoop str1 str2 matchWindow 0
           \<lparr>str1Matches = replicate (length str1) False,
            str2Matches = replicate (length str2) False,
            matches = 0\<rparr>)"

partial_function (option) skipUnmatched :: "bool list \<Rightarrow> nat \<Rightarrow> nat option" where
  \<comment> \<open>\<^verbatim>\<open>while (!str2Matches[k]) k++;\<close>\<close>
  "skipUnmatched ms k =
     (if k < length ms \<and> ms ! k then Some k else skipUnmatched ms (k + 1))"

declare skipUnmatched.simps [code]

function jwTranspositions ::
  "string \<Rightarrow> string \<Rightarrow> jw_state \<Rightarrow> nat \<Rightarrow> nat \<Rightarrow> nat \<Rightarrow> nat option" where
  "jwTranspositions str1 str2 st i k transpositions =
     (if i < length str1
      then (if \<not> str1Matches st ! i
            then jwTranspositions str1 str2 st (i + 1) k transpositions
            else (case skipUnmatched (str2Matches st) k of
                    None \<Rightarrow> None
                  | Some k' \<Rightarrow>
                      jwTranspositions str1 str2 st (i + 1) (k' + 1)
                        (if str1 ! i \<noteq> str2 ! k' then transpositions + 1
                         else transpositions)))
      else Some transpositions)"
  by pat_completeness auto
termination
  by (relation "measure (\<lambda>(s1, s2, st, i, k, t). length s1 - i)") auto

function jwPrefix :: "string \<Rightarrow> string \<Rightarrow> nat \<Rightarrow> nat \<Rightarrow> nat \<Rightarrow> nat" where
  "jwPrefix str1 str2 maxPrefix i prefixLen =
     (if i < maxPrefix
      then (if str1 ! i = str2 ! i
            then jwPrefix str1 str2 maxPrefix (i + 1) (prefixLen + 1)
            else prefixLen)
      else prefixLen)"
  by pat_completeness auto
termination
  by (relation "measure (\<lambda>(s1, s2, m, i, p). m - i)") auto

declare jwScan.simps [simp del] jwMatchLoop.simps [simp del]
  jwTranspositions.simps [simp del] jwPrefix.simps [simp del]

definition jaroWinkler :: "string \<Rightarrow> string \<Rightarrow> real option" where
  "jaroWinkler str1 str2 =
     (if str1 = str2 then Some 0
      else if length str1 = 0 \<or> length str2 = 0 then Some 1
      else
        let st = jwFindMatches str1 str2 in
        if matches st = 0 then Some 1
        else (case jwTranspositions str1 str2 st 0 0 0 of
                None \<Rightarrow> None
              | Some transpositions \<Rightarrow>
                 (let jaro = (real (matches st) / real (length str1) +
                              real (matches st) / real (length str2) +
                              (real (matches st) - real transpositions / 2) / real (matches st))
                             / 3;
                      maxPrefix = min 4 (min (length str1) (length str2));
                      prefixLen = jwPrefix str1 str2 maxPrefix 0 0;
                      winkler = jaro + (0.1 * real prefixLen * (1 - jaro))
                  in Some (1 - winkler))))"

section \<open>Longest common subsequence distance\<close>

definition lcsCell :: "string \<Rightarrow> string \<Rightarrow> nat \<Rightarrow> nat \<Rightarrow> nat list list \<Rightarrow> nat list list" where
  "lcsCell str1 str2 i j dp =
     (if str1 ! (i - 1) = str2 ! (j - 1)
      then setCell dp i j (dp ! (i - 1) ! (j - 1) + 1)
      else setCell dp i j (max (dp ! (i - 1) ! j) (dp ! i ! (j - 1))))"

function lcsInner :: "string \<Rightarrow> string \<Rightarrow> nat \<Rightarrow> nat \<Rightarrow> nat list list \<Rightarrow> nat list list" where
  "lcsInner str1 str2 i j dp =
     (if j \<le> length str2
      then lcsInner str1 str2 i (j + 1) (lcsCell str1 str2 i j dp)
      else dp)"
  by pat_completeness auto
termination
  by (relation "measure (\<lambda>(s1, s2, i, j, m). Suc (length s2) - j)") auto

function lcsOuter :: "string \<Rightarrow> string \<Rightarrow> nat \<Rightarrow> nat list list \<Rightarrow> nat list list" where
  "lcsOuter str1 str2 i dp =
     (if i \<le> length str1
      then lcsOuter str1 str2 (i + 1) (lcsInner str1 str2 i 1 dp)
      else dp)"
  by pat_completeness auto
termination
  by (relation "measure (\<lambda>(s1, s2, i, m). Suc (length s1) - i)") auto

declare lcsInner.simps [simp del] lcsOuter.simps [simp del]

definition lcsCreate :: "string \<Rightarrow> string \<Rightarrow> nat list list" where
  \<comment> \<open>\<^verbatim>\<open>Array(len1 + 1).fill(null).map(() => Array(len2 + 1).fill(0))\<close>\<close>
  "lcsCreate str1 str2 = replicate (length str1 + 1) (replicate (length str2 + 1) 0)"

definition lcsTable :: "string \<Rightarrow> string \<Rightarrow> nat list list" where
  \<comment> \<open>the table after creation and filling\<close>
  "lcsTable str1 str2 = lcsOuter str1 str2 1 (lcsCreate str1 str2)"

definition longestCommonSubsequence :: "string \<Rightarrow> string \<Rightarrow> int" where
  "longestCommonSubsequence str1 str2 =
     (let len1 = length str1;
          len2 = length str2
      in if len1 = 0 \<or> len2 = 0 then int (max len1 len2)
         else
           let dp = lcsTable str1 str2;
               lcsLength = dp ! len1 ! len2;
               maxLength = max len1 len2
           in int maxLength - int lcsLength)"

section \<open>Line and word count differences\<close>

definition lineCountDifference :: "string \<Rightarrow> string \<Rightarrow> int" where
  "lineCountDifference str1 str2 =
     (let lines1 = length (splitOn newline str1);
          lines2 = length (splitOn newline str2)
      in int lines2 - int lines1)"

definition wordCountDifference :: "string \<Rightarrow> string \<Rightarrow> int" where
  "wordCountDifference str1 str2 =
     (let words1 = length (filter (\<lambda>w. w \<noteq> []) (splitWhitespace str1));
          words2 = length (filter (\<lambda>w. w \<noteq> []) (splitWhitespace str2))
      in int words2 - int words1)"

section \<open>Levenshtein distance\<close>

text \<open>
  Modelled from the spec: \<^verbatim>\<open>distance\<close> is imported from the package
  \<^verbatim>\<open>fastest-levenshtein\<close>, which is not part of the sources. The spec defines it as the
  minimum number of single-character insertions, deletions and substitutions, each of
  cost one, that transform \<open>a\<close> into \<open>b\<close>, by the classic dynamic program.
\<close>

fun levenshtein :: "string \<Rightarrow> string \<Rightarrow> nat" where
  "levenshtein [] b = length b"
| "levenshtein a [] = length a"
| "levenshtein (x # a) (y # b) =
     min (levenshtein a (y # b) + 1)
       (min (levenshtein (x # a) b + 1)
            (levenshtein a b + (if x = y then 0 else 1)))"

section \<open>The command-line run\<close>

text \<open>
  The run reads its arguments and the output of \<^verbatim>\<open>git\<close> commands, writes lines to the
  standard output and the standard error, and ends by returning, by leaving the process
  with a status, or by an uncaught exception. The model takes \<^verbatim>\<open>execSync\<close> as a
  function from the command line to its output (\<open>None\<close> when the command fails) and
  returns the lines and the way the run ends. A printed number is kept as a number, the
  usage text and the fixed messages as constructors. The \<^verbatim>\<open>[DEBUG]\<close> lines of the
  verbose mode go to the standard error and are left out.
\<close>

datatype out_line =
    Usage
  | NoChangedFiles
  | Row string real
  | Separator nat
  | Total real

datatype err_line =
    MultipleMeasures "string list"
  | OnlyOneMeasure
  | InvalidArguments

datatype exn = NotInGitRepository | FailedToCompareBranches

datatype outcome = Exit nat | Returned | Thrown exn | NoReturn

record run_result =
  stdout :: "out_line list"
  stderr :: "err_line list"
  outcome :: outcome

definition fileExistsInBranch :: "(string \<Rightarrow> string option) \<Rightarrow> string \<Rightarrow> string \<Rightarrow> bool" where
  "fileExistsInBranch execSync branch file =
     (case execSync (''git cat-file -e '' @ branch @ '':'' @ file) of
        None \<Rightarrow> False
      | Some _ \<Rightarrow> True)"

definition getFileFromBranch :: "(string \<Rightarrow> string option) \<Rightarrow> string \<Rightarrow> string \<Rightarrow> string" where
  "getFileFromBranch execSync branch file =
     (if \<not> fileExistsInBranch execSync branch file then []
      else (case execSync (''git show '' @ branch @ '':'' @ file) of
              None \<Rightarrow> []
            | Some content \<Rightarrow> content))"

definition getCurrentBranch :: "(string \<Rightarrow> string option) \<Rightarrow> exn + string" where
  "getCurrentBranch execSync =
     (case execSync ''git rev-parse --abbrev-ref HEAD'' of
        None \<Rightarrow> Inl NotInGitRepository
      | Some branch \<Rightarrow> Inr (trim branch))"

definition getChangedFiles ::
  "(string \<Rightarrow> string option) \<Rightarrow> string \<Rightarrow> string \<Rightarrow> exn + string list" where
  "getChangedFiles execSync branch1 branch2 =
     (case execSync (''git diff --name-only '' @ branch1 @ ''..'' @ branch2) of
        None \<Rightarrow> Inl FailedToCompareBranches
      | Some output \<Rightarrow> Inr (filter (\<lambda>f. f \<noteq> []) (splitOn newline (trim output))))"

definition distanceFlags :: "string list" where
  "distanceFlags =
     [''--hamming'', ''--additions'', ''--damerau-levenshtein'', ''--jaro-winkler'',
      ''--lcs'', ''--lines'', ''--words'']"

definition selectedDistanceFlags :: "string list \<Rightarrow> string list" where
  "selectedDistanceFlags args = filter (\<lambda>flag. flag \<in> set args) distanceFlags"

definition selectDistanceMeasure :: "string list \<Rightarrow> err_line list + string" where
  \<comment> \<open>the two error lines of a run that ends with status 1, or the measure to use\<close>
  "selectDistanceMeasure args =
     (if length (selectedDistanceFlags args) > 1
      then Inl [MultipleMeasures (selectedDistanceFlags args), OnlyOneMeasure]
      else Inr (if length (selectedDistanceFlags args) > 0
                then selectedDistanceFlags args ! 0
                else ''levenshtein''))"

definition getDistance :: "string \<Rightarrow> string \<Rightarrow> string \<Rightarrow> real option" where
  "getDistance distanceMeasure contentA contentB =
     (if distanceMeasure = ''--hamming''
        then Some (real (hammingDistance contentA contentB))
      else if distanceMeasure = ''--additions''
        then Some (real_of_int (calculateAdditions contentA contentB))
      else if distanceMeasure = ''--damerau-levenshtein''
        then Some (real (damerauLevenshtein contentA contentB))
      else if distanceMeasure = ''--jaro-winkler''
        then jaroWinkler contentA contentB
      else if distanceMeasure = ''--lcs''
        then Some (real_of_int (longestCommonSubsequence contentA contentB))
      else if distanceMeasure = ''--lines''
        then Some (real_of_int (lineCountDifference contentA contentB))
      else if distanceMeasure = ''--words''
        then Some (real_of_int (wordCountDifference contentA contentB))
      else Some (real (levenshtein contentA contentB)))"

definition maxLength :: "string list \<Rightarrow> nat" where
  \<comment> \<open>\<^verbatim>\<open>Math.max(...files.map((f) => f.length))\<close> for a list that is not empty\<close>
  "maxLength files = foldr max (map length files) 0"

fun reportLoop ::
  "(string \<Rightarrow> string option) \<Rightarrow> string \<Rightarrow> string \<Rightarrow> string \<Rightarrow> bool \<Rightarrow> nat \<Rightarrow>
   string list \<Rightarrow> real \<Rightarrow> out_line list \<Rightarrow> out_line list \<times> real option" where
  \<comment> \<open>\<^verbatim>\<open>for (const file of files)\<close>, with the total and the lines printed so far\<close>
  "reportLoop execSync distanceMeasure branch1 branch2 list maxFileLen [] total' out =
     (out, Some total')"
| "reportLoop execSync distanceMeasure branch1 branch2 list maxFileLen (file # files) total' out =
     (let contentA = getFileFromBranch execSync branch1 file;
          contentB = getFileFromBranch execSync branch2 file
      in case getDistance distanceMeasure contentA contentB of
           None \<Rightarrow> (out, None)
         | Some dist' \<Rightarrow>
             reportLoop execSync distanceMeasure branch1 branch2 list maxFileLen files
               (total' + dist')
               (if list then out @ [Row (padEnd file maxFileLen) dist'] else out))"

definition report ::
  "(string \<Rightarrow> string option) \<Rightarrow> string \<Rightarrow> string \<Rightarrow> string \<Rightarrow> bool \<Rightarrow> string list \<Rightarrow>
   run_result" where
  \<comment> \<open>the run from the list of changed files on\<close>
  "report execSync distanceMeasure branch1 branch2 list files =
     (if length files = 0
      then \<lparr>stdout = [NoChangedFiles], stderr = [], outcome = Exit 0\<rparr>
      else
        let maxFileLen = (if list then maxLength files else 0)
        in case reportLoop execSync distanceMeasure branch1 branch2 list maxFileLen files 0 [] of
             (out, None) \<Rightarrow> \<lparr>stdout = out, stderr = [], outcome = NoReturn\<rparr>
           | (out, Some total') \<Rightarrow>
               \<lparr>stdout = out @ (if list then [Separator (maxFileLen + 10)] else []) @ [Total total'],
                stderr = [], outcome = Returned\<rparr>)"

definition run :: "(string \<Rightarrow> string option) \<Rightarrow> string list \<Rightarrow> run_result" where
  "run execSync args =
     (if length args = 0 \<or> ''--help'' \<in> set args \<or> ''-h'' \<in> set args
      then \<lparr>stdout = [Usage], stderr = [], outcome = Exit 0\<rparr>
      else
        let list = (''--list'' \<in> set args \<or> ''-L'' \<in> set args)
        in case selectDistanceMeasure args of
             Inl errors \<Rightarrow> \<lparr>stdout = [], stderr = errors, outcome = Exit 1\<rparr>
           | Inr distanceMeasure \<Rightarrow>
               let branchArgs = filter (\<lambda>arg. arg \<noteq> ''--verbose'' \<and> arg \<noteq> ''-V'' \<and>
                                  arg \<noteq> ''--list'' \<and> arg \<noteq> ''-L'' \<and>
                                  arg \<notin> set distanceFlags) args;
                   branches =
                     (if length branchArgs = 1
                      then (case getCurrentBranch execSync of
                              Inl e \<Rightarrow> Inl \<lparr>stdout = [], stderr = [], outcome = Thrown e\<rparr>
                            | Inr branch1 \<Rightarrow> Inr (branch1, branchArgs ! 0))
                      else if length branchArgs = 2
                      then Inr (branchArgs ! 0, branchArgs ! 1)
                      else Inl \<lparr>stdout = [], stderr = [InvalidArguments], outcome = Exit 1\<rparr>)
               in case branches of
                    Inl result \<Rightarrow> result
                  | Inr (branch1, branch2) \<Rightarrow>
                      (case getChangedFiles execSync branch1 branch2 of
                         Inl e \<Rightarrow> \<lparr>stdout = [], stderr = [], outcome = Thrown e\<rparr>
                       | Inr files \<Rightarrow>
                           report execSync distanceMeasure branch1 branch2 list files))"

subsection \<open>Two repositories\<close>

text \<open>
  The answers of \<^verbatim>\<open>git\<close> in a repository whose branches \<open>main\<close> and \<open>dev\<close> do not
  differ, and in one, on the branch \<open>main\<close>, where on \<open>dev\<close> the file \<open>a.txt\<close> grew from
  \<open>abc\<close> to \<open>abcdef\<close> and \<open>bb.txt\<close>, which held \<open>hello\<close>, was deleted.
\<close>

definition gitNoChanges :: "string \<Rightarrow> string option" where
  "gitNoChanges command =
     (if command = ''git diff --name-only main..dev'' then Some [] else None)"

definition gitTwoFiles :: "string \<Rightarrow> string option" where
  "gitTwoFiles command =
     (if command = ''git diff --name-only main..dev''
        then Some (''a.txt'' @ [CHR 0x0A] @ ''bb.txt'' @ [CHR 0x0A])
      else if command = ''git rev-parse --abbrev-ref HEAD'' then Some (''main'' @ [CHR 0x0A])
      else if command = ''git cat-file -e main:a.txt'' then Some []
      else if command = ''git show main:a.txt'' then Some ''abc''
      else if command = ''git cat-file -e dev:a.txt'' then Some []
      else if command = ''git show dev:a.txt'' then Some ''abcdef''
      else if command = ''git cat-file -e main:bb.txt'' then Some []
      else if command = ''git show main:bb.txt'' then Some ''hello''
      else None)"

section \<open>The dynamic programs of the specification\<close>

text \<open>
  The recurrences the specification names, over the lengths \<open>i\<close> and \<open>j\<close> of the
  prefixes of \<open>a\<close> and \<open>b\<close>. They are what the tables of the source are compared with.
\<close>

fun spec_lcs_length :: "string \<Rightarrow> string \<Rightarrow> nat \<Rightarrow> nat \<Rightarrow> nat" where
  "spec_lcs_length a b 0 j = 0"
| "spec_lcs_length a b (Suc i) 0 = 0"
| "spec_lcs_length a b (Suc i) (Suc j) =
     (if a ! i = b ! j then spec_lcs_length a b i j + 1
      else max (spec_lcs_length a b i (Suc j)) (spec_lcs_length a b (Suc i) j))"

definition spec_cost :: "string \<Rightarrow> string \<Rightarrow> nat \<Rightarrow> nat \<Rightarrow> nat" where
  \<comment> \<open>the substitution cost at cell \<open>(i, j)\<close>, for \<open>i\<close> and \<open>j\<close> positive\<close>
  "spec_cost a b i j = (if a ! (i - 1) = b ! (j - 1) then 0 else 1)"

definition spec_swapped :: "string \<Rightarrow> string \<Rightarrow> nat \<Rightarrow> nat \<Rightarrow> bool" where
  \<comment> \<open>the last two characters of the two prefixes are swapped\<close>
  "spec_swapped a b i j \<longleftrightarrow>
     i > 1 \<and> j > 1 \<and> a ! (i - 1) = b ! (j - 2) \<and> a ! (i - 2) = b ! (j - 1)"

function spec_damerau_levenshtein :: "string \<Rightarrow> string \<Rightarrow> nat \<Rightarrow> nat \<Rightarrow> nat" where
  "spec_damerau_levenshtein a b i j =
     (if i = 0 then j
      else if j = 0 then i
      else if spec_swapped a b i j
      then min (min (spec_damerau_levenshtein a b (i - 1) j + 1)
                  (min (spec_damerau_levenshtein a b i (j - 1) + 1)
                       (spec_damerau_levenshtein a b (i - 1) (j - 1) + spec_cost a b i j)))
               (spec_damerau_levenshtein a b (i - 2) (j - 2) + spec_cost a b i j)
      else min (spec_damerau_levenshtein a b (i - 1) j + 1)
             (min (spec_damerau_levenshtein a b i (j - 1) + 1)
                  (spec_damerau_levenshtein a b (i - 1) (j - 1) + spec_cost a b i j)))"
  by pat_completeness auto
termination
  by (relation "measure (\<lambda>(a, b, i, j). i + j)") (auto simp: spec_swapped_def)

declare spec_damerau_levenshtein.simps [simp del]

section \<open>Invariants of the tables\<close>

definition table_dims :: "nat list list \<Rightarrow> nat \<Rightarrow> nat \<Rightarrow> bool" where
  "table_dims m rows cols \<longleftrightarrow> length m = rows \<and> (\<forall>r<rows. length (m ! r) = cols)"

definition filled ::
  "(nat \<Rightarrow> nat \<Rightarrow> nat) \<Rightarrow> nat \<Rightarrow> nat \<Rightarrow> nat \<Rightarrow> nat \<Rightarrow> nat list list \<Rightarrow> bool" where
  \<comment> \<open>the table holds \<open>f\<close> on row 0, on column 0, on the rows before \<open>i\<close> and on row \<open>i\<close>
      before column \<open>j\<close>: the cells already written when the loops are at \<open>(i, j)\<close>\<close>
  "filled f len1 len2 i j m \<longleftrightarrow>
     table_dims m (Suc len1) (Suc len2) \<and>
     (\<forall>r c. r \<le> len1 \<longrightarrow> c \<le> len2 \<longrightarrow> (r = 0 \<or> c = 0 \<or> r < i \<or> (r = i \<and> c < j)) \<longrightarrow>
        m ! r ! c = f r c)"

section \<open>The matching of the Jaro-Winkler scan\<close>

text \<open>
  The scan only keeps the two arrays of flags. For the proofs, the pairs of positions it
  matches are collected in a set \<open>M\<close>.
\<close>

definition jwCandidate :: "string \<Rightarrow> string \<Rightarrow> int \<Rightarrow> nat \<Rightarrow> nat \<Rightarrow> bool" where
  \<comment> \<open>position \<open>j\<close> of \<open>b\<close> is in the window of position \<open>i\<close> of \<open>a\<close> and holds the same character\<close>
  "jwCandidate a b w i j \<longleftrightarrow>
     i < length a \<and> j < length b \<and> a ! i = b ! j \<and> int i - w \<le> int j \<and> int j \<le> int i + w"

definition jwMatching :: "string \<Rightarrow> string \<Rightarrow> int \<Rightarrow> nat \<Rightarrow> (nat \<times> nat) set \<Rightarrow> bool" where
  \<comment> \<open>\<open>M\<close> pairs candidates of the rows before \<open>i\<close>, one to one, and every candidate of
      these rows is in \<open>M\<close> or has one of its two positions matched further left\<close>
  "jwMatching a b w i M \<longleftrightarrow>
     (\<forall>p q. (p, q) \<in> M \<longrightarrow> jwCandidate a b w p q \<and> p < i) \<and>
     (\<forall>p q p' q'. (p, q) \<in> M \<longrightarrow> (p', q') \<in> M \<longrightarrow> (p = p') = (q = q')) \<and>
     (\<forall>p q. jwCandidate a b w p q \<longrightarrow> p < i \<longrightarrow>
        (p, q) \<in> M \<or> (\<exists>q'<q. (p, q') \<in> M) \<or> (\<exists>p'<p. (p', q) \<in> M))"

definition jwFlags :: "jw_state \<Rightarrow> (nat \<times> nat) set \<Rightarrow> nat \<Rightarrow> nat \<Rightarrow> bool" where
  \<comment> \<open>the state of the scan records the matching \<open>M\<close>\<close>
  "jwFlags st M n1 n2 \<longleftrightarrow>
     length (str1Matches st) = n1 \<and> length (str2Matches st) = n2 \<and>
     (\<forall>p<n1. str1Matches st ! p = (p \<in> Domain M)) \<and>
     (\<forall>q<n2. str2Matches st ! q = (q \<in> Range M)) \<and>
     matches st = card M"

definition jwCount :: "bool list \<Rightarrow> nat" where
  \<comment> \<open>the number of flagged positions\<close>
  "jwCount ms = length (filter (\<lambda>m. m) ms)"

definition jwMatched :: "string \<Rightarrow> bool list \<Rightarrow> string" where
  \<comment> \<open>the characters at the flagged positions, in their order\<close>
  "jwMatched s ms = map fst (filter snd (zip s ms))"

definition jwMismatches :: "string \<Rightarrow> string \<Rightarrow> nat" where
  "jwMismatches xs ys = length (filter (\<lambda>(x, y). x \<noteq> y) (zip xs ys))"

section \<open>Hamming distance: proofs\<close>

lemma hammingLoop_count:
  "hammingLoop p1 p2 n i d = d + card {k. i \<le> k \<and> k < n \<and> p1 ! k \<noteq> p2 ! k}"
proof (induction p1 p2 n i d rule: hammingLoop.induct)
  case (1 p1 p2 n i d)
  show ?case
  proof (cases "i < n")
    case False
    then have "{k. i \<le> k \<and> k < n \<and> p1 ! k \<noteq> p2 ! k} = {}" by auto
    with False show ?thesis by (simp add: hammingLoop.simps)
  next
    case True
    let ?S = "{k. i + 1 \<le> k \<and> k < n \<and> p1 ! k \<noteq> p2 ! k}"
    have fin: "finite ?S" by simp
    have split: "{k. i \<le> k \<and> k < n \<and> p1 ! k \<noteq> p2 ! k} =
        (if p1 ! i \<noteq> p2 ! i then insert i ?S else ?S)"
      using True by (auto simp: Suc_le_eq le_less)
    have notin: "i \<notin> ?S" by simp
    show ?thesis
      using True "1.IH" [OF True] fin notin
      by (subst hammingLoop.simps) (simp add: split)
  qed
qed

lemma hammingDistance_card:
  "hammingDistance a b =
     card {i. i < max (length a) (length b) \<and>
              padEnd a (max (length a) (length b)) ! i \<noteq>
              padEnd b (max (length a) (length b)) ! i}"
  by (simp add: hammingDistance_def Let_def hammingLoop_count)

text \<open>
  C5. The length-padded Hamming metric is the number of positions at which the two
  strings differ once the shorter one is padded on the right with spaces to the length
  of the longer one; \<open>hamming("abc","abd") = 1\<close> and \<open>hamming("ab","abcd") = 2\<close>.
\<close>

theorem hammingDistance_padded_positions:
  "hammingDistance a b =
     card {i. i < max (length a) (length b) \<and>
              (a @ replicate (max (length a) (length b) - length a) (CHR '' '')) ! i \<noteq>
              (b @ replicate (max (length a) (length b) - length b) (CHR '' '')) ! i}
   \<and> hammingDistance ''abc'' ''abd'' = 1
   \<and> hammingDistance ''ab'' ''abcd'' = 2"
proof -
  have general: "hammingDistance a b =
     card {i. i < max (length a) (length b) \<and>
              (a @ replicate (max (length a) (length b) - length a) (CHR '' '')) ! i \<noteq>
              (b @ replicate (max (length a) (length b) - length b) (CHR '' '')) ! i}"
    using hammingDistance_card [of a b] by (simp add: padEnd_def space_def)
  have v1: "hammingDistance ''abc'' ''abd'' = 1" by code_simp
  have v2: "hammingDistance ''ab'' ''abcd'' = 2" by code_simp
  from general v1 v2 show ?thesis by blast
qed

text \<open>
  C10. Appending \<open>k\<close> spaces to a string gives a string at Hamming distance 0 from it:
  trailing spaces cannot be told from padding.
\<close>

theorem hammingDistance_trailing_spaces:
  "hammingDistance a (a @ replicate k (CHR '' '')) = 0"
proof -
  have "padEnd a (length a + k) = a @ replicate k (CHR '' '')"
    by (simp add: padEnd_def space_def)
  moreover have "padEnd (a @ replicate k (CHR '' '')) (length a + k) = a @ replicate k (CHR '' '')"
    by (simp add: padEnd_def)
  ultimately show ?thesis
    by (simp add: hammingDistance_card max_def)
qed

theorem hammingDistance_trailing_spaces_witness:
  "hammingDistance ''ab'' ''ab   '' = 0 \<and> ''ab'' \<noteq> ''ab   ''"
  using hammingDistance_trailing_spaces [of "''ab''" 3]
  by (simp add: numeral_3_eq_3)

section \<open>Signed differences\<close>

text \<open>
  C8. The three signed difference metrics are antisymmetric: exchanging the two strings
  negates the character count difference, the line count difference and the word count
  difference.
\<close>

theorem signed_differences_antisymmetric:
  "calculateAdditions a b = - calculateAdditions b a
   \<and> lineCountDifference a b = - lineCountDifference b a
   \<and> wordCountDifference a b = - wordCountDifference b a"
  by (simp add: calculateAdditions_def lineCountDifference_def wordCountDifference_def Let_def)

theorem signed_differences_antisymmetric_witness:
  "calculateAdditions ''abc'' ''abcdef'' = 3 \<and> calculateAdditions ''abcdef'' ''abc'' = - 3
   \<and> wordCountDifference ''hello world'' ''hello world test'' = 1
   \<and> wordCountDifference ''hello world test'' ''hello world'' = - 1
   \<and> lineCountDifference ''a'' [CHR ''a'', CHR 0x0A, CHR ''b''] = 1
   \<and> lineCountDifference [CHR ''a'', CHR 0x0A, CHR ''b''] ''a'' = - 1"
proof -
  have a: "calculateAdditions ''abc'' ''abcdef'' = 3" by code_simp
  have w: "wordCountDifference ''hello world'' ''hello world test'' = 1" by code_simp
  have l: "lineCountDifference ''a'' [CHR ''a'', CHR 0x0A, CHR ''b''] = 1" by code_simp
  show ?thesis
    using a w l
      signed_differences_antisymmetric [of "''abcdef''" "''abc''"]
      signed_differences_antisymmetric [of "''hello world test''" "''hello world''"]
      signed_differences_antisymmetric [of "[CHR ''a'', CHR 0x0A, CHR ''b'']" "''a''"]
    by simp
qed

section \<open>Line count\<close>

lemma splitOn_not_Nil: "splitOn sep s \<noteq> []"
  by (induction s) (auto split: list.splits)

lemma length_splitOn: "length (splitOn sep s) = Suc (count_list s sep)"
proof (induction s)
  case Nil
  show ?case by simp
next
  case (Cons c cs)
  then show ?case
    using splitOn_not_Nil [of sep cs] by (cases "splitOn sep cs") auto
qed

text \<open>
  C9. The line count difference is the number of newline-delimited segments of \<open>b\<close>
  minus that of \<open>a\<close>, where a string with \<open>n\<close> newlines has \<open>n + 1\<close> segments, so that a
  trailing newline adds a segment; the difference is 1 for the two-line and the three-line
  text of the example.
\<close>

theorem lineCountDifference_segments:
  "lineCountDifference a b =
     int (length (splitOn (CHR 0x0A) b)) - int (length (splitOn (CHR 0x0A) a))
   \<and> length (splitOn (CHR 0x0A) a) = count_list a (CHR 0x0A) + 1
   \<and> length (splitOn (CHR 0x0A) (a @ [CHR 0x0A])) = length (splitOn (CHR 0x0A) a) + 1
   \<and> lineCountDifference
        (''line1'' @ [CHR 0x0A] @ ''line2'')
        (''line1'' @ [CHR 0x0A] @ ''line2'' @ [CHR 0x0A] @ ''line3'') = 1"
proof -
  have diff: "lineCountDifference a b =
      int (length (splitOn (CHR 0x0A) b)) - int (length (splitOn (CHR 0x0A) a))"
    by (simp add: lineCountDifference_def newline_def Let_def)
  have segs: "length (splitOn (CHR 0x0A) a) = count_list a (CHR 0x0A) + 1"
    by (simp add: length_splitOn)
  have trailing: "length (splitOn (CHR 0x0A) (a @ [CHR 0x0A])) = length (splitOn (CHR 0x0A) a) + 1"
    by (simp add: length_splitOn)
  have vector: "lineCountDifference
        (''line1'' @ [CHR 0x0A] @ ''line2'')
        (''line1'' @ [CHR 0x0A] @ ''line2'' @ [CHR 0x0A] @ ''line3'') = 1"
    by code_simp
  from diff segs trailing vector show ?thesis by blast
qed

section \<open>Jaro-Winkler distance: the special cases\<close>

text \<open>
  C4. The Jaro-Winkler distance is 0 for two identical strings (also for two empty
  strings), 1 for two different strings one of which is empty, and 1 when the windowed
  scan for matching characters, which runs for two different strings, finds none.
\<close>

theorem jaroWinkler_special_cases:
  "(a = b \<longrightarrow> jaroWinkler a b = Some 0)
   \<and> (a \<noteq> b \<and> (a = [] \<or> b = []) \<longrightarrow> jaroWinkler a b = Some 1)
   \<and> (a \<noteq> b \<and> matches (jwFindMatches a b) = 0 \<longrightarrow> jaroWinkler a b = Some 1)
   \<and> jaroWinkler '''' '''' = Some 0
   \<and> jaroWinkler ''x'' '''' = Some 1"
  by (simp add: jaroWinkler_def Let_def)

theorem jaroWinkler_special_cases_witness:
  "jaroWinkler ''abc'' ''abc'' = Some 0
   \<and> ''x'' \<noteq> '''' \<and> jaroWinkler ''x'' '''' = Some 1
   \<and> ''ab'' \<noteq> ''cd'' \<and> matches (jwFindMatches ''ab'' ''cd'') = 0
   \<and> jaroWinkler ''ab'' ''cd'' = Some 1"
proof -
  have m: "matches (jwFindMatches ''ab'' ''cd'') = 0" by code_simp
  show ?thesis
    using m jaroWinkler_special_cases [of "''abc''" "''abc''"]
      jaroWinkler_special_cases [of "''x''" "''''"]
      jaroWinkler_special_cases [of "''ab''" "''cd''"]
    by simp
qed

section \<open>Selecting the distance measure\<close>

lemma distinct_distanceFlags: "distinct distanceFlags"
  by (simp add: distanceFlags_def)

lemma two_flags_selected:
  assumes "f1 \<in> set distanceFlags" "f2 \<in> set distanceFlags" "f1 \<noteq> f2"
    and "f1 \<in> set args" "f2 \<in> set args"
  shows "1 < length (selectedDistanceFlags args)"
proof -
  have sub: "{f1, f2} \<subseteq> set (selectedDistanceFlags args)"
    using assms by (simp add: selectedDistanceFlags_def)
  have "card {f1, f2} \<le> card (set (selectedDistanceFlags args))"
    by (rule card_mono [OF _ sub]) simp
  also have "\<dots> \<le> length (selectedDistanceFlags args)"
    by (rule card_length)
  finally show ?thesis
    using \<open>f1 \<noteq> f2\<close> by simp
qed

lemma selected_subset: "set (selectedDistanceFlags args) \<subseteq> set args"
  by (auto simp: selectedDistanceFlags_def)

lemma run_ambiguous:
  assumes "1 < length (selectedDistanceFlags args)"
    and "''--help'' \<notin> set args" "''-h'' \<notin> set args"
  shows "run execSync args =
    \<lparr>stdout = [],
     stderr = [MultipleMeasures (selectedDistanceFlags args), OnlyOneMeasure],
     outcome = Exit 1\<rparr>"
proof -
  have "selectedDistanceFlags args \<noteq> []"
    using assms(1) by auto
  then have "args \<noteq> []"
    using selected_subset [of args] by auto
  then show ?thesis
    using assms by (simp add: run_def selectDistanceMeasure_def)
qed

text \<open>
  C3. When two or more different distance flags are among the arguments, the selection
  of the measure fails with the error of an ambiguous request (the two error lines of the
  source), and a run that reaches the selection, that is a run that was not asked for the
  usage text, ends with status 1 with nothing on the standard output, whatever the
  \<^verbatim>\<open>git\<close> commands would answer: no pair is evaluated and no measure is chosen. When no
  distance flag is among the arguments, the selection gives the Levenshtein distance.
\<close>

theorem ambiguous_measure_fails_before_evaluation:
  "(f1 \<in> set distanceFlags \<and> f2 \<in> set distanceFlags \<and> f1 \<noteq> f2 \<and>
    f1 \<in> set args \<and> f2 \<in> set args \<longrightarrow>
      1 < length (selectedDistanceFlags args))
   \<and> (1 < length (selectedDistanceFlags args) \<longrightarrow>
        selectDistanceMeasure args =
          Inl [MultipleMeasures (selectedDistanceFlags args), OnlyOneMeasure])
   \<and> (1 < length (selectedDistanceFlags args) \<and> ''--help'' \<notin> set args \<and> ''-h'' \<notin> set args \<longrightarrow>
        run execSync args =
          \<lparr>stdout = [],
           stderr = [MultipleMeasures (selectedDistanceFlags args), OnlyOneMeasure],
           outcome = Exit 1\<rparr>)
   \<and> (selectedDistanceFlags args = [] \<longrightarrow>
        selectDistanceMeasure args = Inr ''levenshtein'' \<and>
        getDistance ''levenshtein'' a b = Some (real (levenshtein a b)))"
proof -
  have one: "f1 \<in> set distanceFlags \<and> f2 \<in> set distanceFlags \<and> f1 \<noteq> f2 \<and>
      f1 \<in> set args \<and> f2 \<in> set args \<longrightarrow> 1 < length (selectedDistanceFlags args)"
    using two_flags_selected by blast
  have two: "1 < length (selectedDistanceFlags args) \<longrightarrow>
      selectDistanceMeasure args =
        Inl [MultipleMeasures (selectedDistanceFlags args), OnlyOneMeasure]"
    by (simp add: selectDistanceMeasure_def)
  have three: "1 < length (selectedDistanceFlags args) \<and> ''--help'' \<notin> set args \<and>
      ''-h'' \<notin> set args \<longrightarrow>
      run execSync args =
        \<lparr>stdout = [],
         stderr = [MultipleMeasures (selectedDistanceFlags args), OnlyOneMeasure],
         outcome = Exit 1\<rparr>"
    using run_ambiguous by blast
  have four: "selectedDistanceFlags args = [] \<longrightarrow>
      selectDistanceMeasure args = Inr ''levenshtein'' \<and>
      getDistance ''levenshtein'' a b = Some (real (levenshtein a b))"
    by (simp add: selectDistanceMeasure_def getDistance_def)
  from one two three four show ?thesis by blast
qed

theorem ambiguous_measure_fails_before_evaluation_witness:
  "selectedDistanceFlags [''main'', ''dev'', ''--lcs'', ''--hamming''] = [''--hamming'', ''--lcs'']
   \<and> selectDistanceMeasure [''main'', ''dev'', ''--lcs'', ''--hamming''] =
       Inl [MultipleMeasures [''--hamming'', ''--lcs''], OnlyOneMeasure]
   \<and> run Map.empty [''main'', ''dev'', ''--lcs'', ''--hamming''] =
       \<lparr>stdout = [], stderr = [MultipleMeasures [''--hamming'', ''--lcs''], OnlyOneMeasure],
        outcome = Exit 1\<rparr>
   \<and> selectedDistanceFlags [''main'', ''dev''] = []
   \<and> selectDistanceMeasure [''main'', ''dev''] = Inr ''levenshtein''
   \<and> getDistance ''levenshtein'' ''kitten'' ''sitting'' = Some (real (levenshtein ''kitten'' ''sitting''))"
proof -
  have sel: "selectedDistanceFlags [''main'', ''dev'', ''--lcs'', ''--hamming''] =
      [''--hamming'', ''--lcs'']"
    by (simp add: selectedDistanceFlags_def distanceFlags_def)
  have none: "selectedDistanceFlags [''main'', ''dev''] = []"
    by (simp add: selectedDistanceFlags_def distanceFlags_def)
  have flags: "''--lcs'' \<in> set distanceFlags" "''--hamming'' \<in> set distanceFlags"
    by (simp_all add: distanceFlags_def)
  show ?thesis
    using sel none flags
      ambiguous_measure_fails_before_evaluation
        [of "''--lcs''" "''--hamming''" "[''main'', ''dev'', ''--lcs'', ''--hamming'']" Map.empty]
      ambiguous_measure_fails_before_evaluation
        [of "''--lcs''" "''--hamming''" "[''main'', ''dev'']" Map.empty "''kitten''" "''sitting''"]
    by simp
qed

section \<open>Tables\<close>

lemma length_setCell [simp]: "length (setCell m i j v) = length m"
  by (simp add: setCell_def)

lemma length_row_setCell [simp]: "length (setCell m i j v ! r) = length (m ! r)"
  by (cases "i < length m"; cases "r = i") (simp_all add: setCell_def list_update_beyond)

lemma setCell_same:
  "i < length m \<Longrightarrow> j < length (m ! i) \<Longrightarrow> setCell m i j v ! i ! j = v"
  by (simp add: setCell_def)

lemma setCell_other:
  "r \<noteq> i \<or> c \<noteq> j \<Longrightarrow> setCell m i j v ! r ! c = m ! r ! c"
  by (cases "i < length m"; cases "r = i") (auto simp: setCell_def list_update_beyond)

lemma table_dims_setCell [simp]:
  "table_dims (setCell m i j v) rows cols = table_dims m rows cols"
  by (simp add: table_dims_def)

lemma table_dims_replicate: "table_dims (replicate rows (replicate cols v)) rows cols"
  by (simp add: table_dims_def)

lemma filledI:
  assumes "table_dims m (Suc len1) (Suc len2)"
    and "\<And>r c. r \<le> len1 \<Longrightarrow> c \<le> len2 \<Longrightarrow> r = 0 \<or> c = 0 \<or> r < i \<or> (r = i \<and> c < j) \<Longrightarrow>
           m ! r ! c = f r c"
  shows "filled f len1 len2 i j m"
  using assms by (simp add: filled_def)

lemma filled_dims: "filled f len1 len2 i j m \<Longrightarrow> table_dims m (Suc len1) (Suc len2)"
  by (simp add: filled_def)

lemma filled_cell:
  "filled f len1 len2 i j m \<Longrightarrow> r \<le> len1 \<Longrightarrow> c \<le> len2 \<Longrightarrow>
   r = 0 \<or> c = 0 \<or> r < i \<or> (r = i \<and> c < j) \<Longrightarrow> m ! r ! c = f r c"
  unfolding filled_def by blast

lemma filled_next_row:
  assumes "filled f len1 len2 i j m" "len2 < j"
  shows "filled f len1 len2 (Suc i) 1 m"
proof (rule filledI)
  show "table_dims m (Suc len1) (Suc len2)"
    using assms(1) by (rule filled_dims)
next
  fix r c
  assume rc: "r \<le> len1" "c \<le> len2" and "r = 0 \<or> c = 0 \<or> r < Suc i \<or> (r = Suc i \<and> c < 1)"
  with assms(2) have "r = 0 \<or> c = 0 \<or> r < i \<or> (r = i \<and> c < j)"
    by auto
  with assms(1) rc show "m ! r ! c = f r c"
    by (rule filled_cell)
qed

text \<open>Writing the right value into the next cell extends the filled part by that cell.\<close>

lemma filled_setCell:
  assumes inv: "filled f len1 len2 i j m"
    and i: "i \<le> len1" and j: "j \<le> len2"
    and v: "v = f i j"
  shows "filled f len1 len2 i (Suc j) (setCell m i j v)"
proof (rule filledI)
  show "table_dims (setCell m i j v) (Suc len1) (Suc len2)"
    using filled_dims [OF inv] by simp
next
  fix r c
  assume rc: "r \<le> len1" "c \<le> len2"
    and region: "r = 0 \<or> c = 0 \<or> r < i \<or> (r = i \<and> c < Suc j)"
  show "setCell m i j v ! r ! c = f r c"
  proof (cases "r = i \<and> c = j")
    case True
    have "i < length m" "j < length (m ! i)"
      using filled_dims [OF inv] i j by (simp_all add: table_dims_def)
    then show ?thesis
      using True v by (simp add: setCell_same)
  next
    case False
    then have "setCell m i j v ! r ! c = m ! r ! c"
      by (intro setCell_other) auto
    moreover from False region have "r = 0 \<or> c = 0 \<or> r < i \<or> (r = i \<and> c < j)"
      by auto
    ultimately show ?thesis
      using filled_cell [OF inv rc] by simp
  qed
qed

section \<open>Damerau-Levenshtein distance: the matrix holds the recurrence\<close>

lemma setCell_twice: "setCell (setCell m i j v) i j w = setCell m i j w"
  by (cases "i < length m") (simp_all add: setCell_def list_update_beyond)

lemma dlInitColumn_cells:
  "table_dims m (Suc len1) (Suc len2) \<Longrightarrow>
   table_dims (dlInitColumn len1 i m) (Suc len1) (Suc len2) \<and>
   (\<forall>r c. dlInitColumn len1 i m ! r ! c = (if c = 0 \<and> i \<le> r \<and> r \<le> len1 then r else m ! r ! c))"
proof (induction len1 i m rule: dlInitColumn.induct)
  case (1 len1 i m)
  show ?case
  proof (cases "i \<le> len1")
    case False
    with "1.prems" show ?thesis
      by (simp add: dlInitColumn.simps)
  next
    case True
    let ?m1 = "setCell m i 0 i"
    have dims1: "table_dims ?m1 (Suc len1) (Suc len2)"
      using "1.prems" by simp
    have bounds: "i < length m" "0 < length (m ! i)"
      using "1.prems" True by (simp_all add: table_dims_def)
    have cell1: "?m1 ! r ! c = (if r = i \<and> c = 0 then i else m ! r ! c)" for r c
      using bounds by (auto simp: setCell_same setCell_other)
    have unfold: "dlInitColumn len1 i m = dlInitColumn len1 (i + 1) ?m1"
      using True by (subst dlInitColumn.simps) simp
    from "1.IH" [OF True dims1] True show ?thesis
      unfolding unfold by (auto simp: cell1)
  qed
qed

lemma dlInitRow_cells:
  "table_dims m (Suc len1) (Suc len2) \<Longrightarrow>
   table_dims (dlInitRow len2 j m) (Suc len1) (Suc len2) \<and>
   (\<forall>r c. dlInitRow len2 j m ! r ! c = (if r = 0 \<and> j \<le> c \<and> c \<le> len2 then c else m ! r ! c))"
proof (induction len2 j m rule: dlInitRow.induct)
  case (1 len2 j m)
  show ?case
  proof (cases "j \<le> len2")
    case False
    with "1.prems" show ?thesis
      by (simp add: dlInitRow.simps)
  next
    case True
    let ?m1 = "setCell m 0 j j"
    have dims1: "table_dims ?m1 (Suc len1) (Suc len2)"
      using "1.prems" by simp
    have bounds: "0 < length m" "j < length (m ! 0)"
      using "1.prems" True by (simp_all add: table_dims_def)
    have cell1: "?m1 ! r ! c = (if r = 0 \<and> c = j then j else m ! r ! c)" for r c
      using bounds by (auto simp: setCell_same setCell_other)
    have unfold: "dlInitRow len2 j m = dlInitRow len2 (j + 1) ?m1"
      using True by (subst dlInitRow.simps) simp
    from "1.IH" [OF True dims1] True show ?thesis
      unfolding unfold by (auto simp: cell1)
  qed
qed

lemma spec_dl_row0 [simp]: "spec_damerau_levenshtein a b 0 j = j"
  by (simp add: spec_damerau_levenshtein.simps)

lemma spec_dl_col0 [simp]: "spec_damerau_levenshtein a b i 0 = i"
  by (simp add: spec_damerau_levenshtein.simps)

lemma dl_initialised:
  "filled (spec_damerau_levenshtein a b) (length a) (length b) 1 1
     (dlInitRow (length b) 0
        (dlInitColumn (length a) 0
           (replicate (length a + 1) (replicate (length b + 1) 0))))"
proof -
  let ?m0 = "replicate (length a + 1) (replicate (length b + 1) (0::nat))"
  have d0: "table_dims ?m0 (Suc (length a)) (Suc (length b))"
    using table_dims_replicate [of "Suc (length a)" "Suc (length b)" "0::nat"] by simp
  note col = dlInitColumn_cells [OF d0, of 0]
  note row = dlInitRow_cells [OF col [THEN conjunct1], of 0]
  show ?thesis
  proof (rule filledI)
    show "table_dims (dlInitRow (length b) 0 (dlInitColumn (length a) 0 ?m0))
        (Suc (length a)) (Suc (length b))"
      using row by simp
  next
    fix r c
    assume "r \<le> length a" "c \<le> length b" "r = 0 \<or> c = 0 \<or> r < 1 \<or> (r = 1 \<and> c < 1)"
    then show "dlInitRow (length b) 0 (dlInitColumn (length a) 0 ?m0) ! r ! c =
        spec_damerau_levenshtein a b r c"
      using row col by auto
  qed
qed

lemma dlCell_writes_recurrence:
  assumes inv: "filled (spec_damerau_levenshtein a b) (length a) (length b) i j m"
    and i: "1 \<le> i" "i \<le> length a" and j: "1 \<le> j" "j \<le> length b"
  shows "dlCell a b i j m = setCell m i j (spec_damerau_levenshtein a b i j)"
proof -
  let ?f = "spec_damerau_levenshtein a b"
  note cell = filled_cell [OF inv]
  have up: "m ! (i - 1) ! j = ?f (i - 1) j"
    using i j by (intro cell) auto
  have left: "m ! i ! (j - 1) = ?f i (j - 1)"
    using i j by (intro cell) auto
  have diag: "m ! (i - 1) ! (j - 1) = ?f (i - 1) (j - 1)"
    using i j by (intro cell) auto
  have diag2: "m ! (i - 2) ! (j - 2) = ?f (i - 2) (j - 2)"
    using i j by (intro cell) auto
  let ?cost = "spec_cost a b i j"
  let ?base = "min (?f (i - 1) j + 1) (min (?f i (j - 1) + 1) (?f (i - 1) (j - 1) + ?cost))"
  have bounds: "i < length m" "j < length (m ! i)"
    using filled_dims [OF inv] i j by (simp_all add: table_dims_def)
  have written: "setCell m i j v ! i ! j = v" for v
    using bounds by (rule setCell_same)
  have kept: "setCell m i j v ! (i - 2) ! (j - 2) = m ! (i - 2) ! (j - 2)" for v
    using i by (intro setCell_other) auto
  have rec: "?f i j = (if spec_swapped a b i j then min ?base (?f (i - 2) (j - 2) + ?cost) else ?base)"
    using i j by (subst spec_damerau_levenshtein.simps) simp
  have swapped: "(i > 1 \<and> j > 1 \<and> a ! (i - 1) = b ! (j - 2) \<and> a ! (i - 2) = b ! (j - 1))
      = spec_swapped a b i j"
    by (simp add: spec_swapped_def)
  have cost: "(if a ! (i - 1) = b ! (j - 1) then 0 else 1) = ?cost"
    by (simp add: spec_cost_def)
  show ?thesis
    unfolding dlCell_def Let_def cost swapped up left diag
    by (simp add: written kept diag2 rec setCell_twice)
qed

lemma dlCell_filled:
  assumes "filled (spec_damerau_levenshtein a b) (length a) (length b) i j m"
    and "1 \<le> i" "i \<le> length a" and "1 \<le> j" "j \<le> length b"
  shows "filled (spec_damerau_levenshtein a b) (length a) (length b) i (Suc j) (dlCell a b i j m)"
  using assms by (simp add: dlCell_writes_recurrence filled_setCell)

lemma dlInner_filled:
  "filled (spec_damerau_levenshtein a b) (length a) (length b) i j m \<Longrightarrow>
   1 \<le> i \<Longrightarrow> i \<le> length a \<Longrightarrow> 1 \<le> j \<Longrightarrow>
   filled (spec_damerau_levenshtein a b) (length a) (length b) (Suc i) 1 (dlInner a b i j m)"
proof (induction a b i j m rule: dlInner.induct)
  case (1 str1 str2 i j matrix)
  show ?case
  proof (cases "j \<le> length str2")
    case True
    have step: "filled (spec_damerau_levenshtein str1 str2) (length str1) (length str2) i (Suc j)
        (dlCell str1 str2 i j matrix)"
      using "1.prems" True by (intro dlCell_filled)
    have "dlInner str1 str2 i j matrix = dlInner str1 str2 i (j + 1) (dlCell str1 str2 i j matrix)"
      using True by (subst dlInner.simps) simp
    then show ?thesis
      using "1.IH" [OF True] step "1.prems" by simp
  next
    case False
    then have same: "dlInner str1 str2 i j matrix = matrix"
      by (subst dlInner.simps) simp
    from False have "length str2 < j"
      by simp
    from filled_next_row [OF "1.prems"(1) this] show ?thesis
      by (simp add: same)
  qed
qed

lemma dlOuter_filled:
  "filled (spec_damerau_levenshtein a b) (length a) (length b) i 1 m \<Longrightarrow> 1 \<le> i \<Longrightarrow>
   \<exists>k. length a < k \<and>
     filled (spec_damerau_levenshtein a b) (length a) (length b) k 1 (dlOuter a b i m)"
proof (induction a b i m rule: dlOuter.induct)
  case (1 str1 str2 i matrix)
  show ?case
  proof (cases "i \<le> length str1")
    case True
    have row: "filled (spec_damerau_levenshtein str1 str2) (length str1) (length str2) (Suc i) 1
        (dlInner str1 str2 i 1 matrix)"
      using "1.prems" True by (intro dlInner_filled) simp_all
    have "dlOuter str1 str2 i matrix = dlOuter str1 str2 (i + 1) (dlInner str1 str2 i 1 matrix)"
      using True by (subst dlOuter.simps) simp
    then show ?thesis
      using "1.IH" [OF True] row by simp
  next
    case False
    then have "dlOuter str1 str2 i matrix = matrix"
      by (subst dlOuter.simps) simp
    with False "1.prems"(1) show ?thesis
      by (intro exI [of _ i]) simp
  qed
qed

lemma dlMatrix_cells:
  assumes "r \<le> length a" "c \<le> length b"
  shows "dlMatrix a b ! r ! c = spec_damerau_levenshtein a b r c"
proof -
  obtain k where k: "length a < k"
    and full: "filled (spec_damerau_levenshtein a b) (length a) (length b) k 1 (dlMatrix a b)"
    using dlOuter_filled [OF dl_initialised, of a b] by (auto simp: dlMatrix_def Let_def)
  from assms k show ?thesis
    by (intro filled_cell [OF full]) auto
qed

lemma damerauLevenshtein_recurrence:
  "damerauLevenshtein a b = spec_damerau_levenshtein a b (length a) (length b)"
  by (simp add: damerauLevenshtein_def Let_def dlMatrix_cells)

section \<open>Longest common subsequence: the table holds the recurrence\<close>

lemma spec_lcs_col0 [simp]: "spec_lcs_length a b i 0 = 0"
  by (cases i) simp_all

lemma spec_lcs_step:
  assumes "1 \<le> i" "1 \<le> j"
  shows "spec_lcs_length a b i j =
     (if a ! (i - 1) = b ! (j - 1) then spec_lcs_length a b (i - 1) (j - 1) + 1
      else max (spec_lcs_length a b (i - 1) j) (spec_lcs_length a b i (j - 1)))"
proof -
  from assms obtain i' j' where "i = Suc i'" "j = Suc j'"
    by (cases i; cases j) auto
  then show ?thesis by simp
qed

lemma lcsCreate_cells:
  "r \<le> length a \<Longrightarrow> c \<le> length b \<Longrightarrow> lcsCreate a b ! r ! c = 0"
  by (simp add: lcsCreate_def del: replicate.simps)

lemma lcs_created:
  "filled (spec_lcs_length a b) (length a) (length b) 1 1 (lcsCreate a b)"
proof (rule filledI)
  show "table_dims (lcsCreate a b) (Suc (length a)) (Suc (length b))"
    using table_dims_replicate [of "Suc (length a)" "Suc (length b)" "0::nat"]
    by (simp add: lcsCreate_def)
next
  fix r c
  assume "r \<le> length a" "c \<le> length b" "r = 0 \<or> c = 0 \<or> r < 1 \<or> (r = 1 \<and> c < 1)"
  then show "lcsCreate a b ! r ! c = spec_lcs_length a b r c"
    by (auto simp: lcsCreate_cells)
qed

lemma lcsCell_writes_recurrence:
  assumes inv: "filled (spec_lcs_length a b) (length a) (length b) i j m"
    and i: "1 \<le> i" "i \<le> length a" and j: "1 \<le> j" "j \<le> length b"
  shows "lcsCell a b i j m = setCell m i j (spec_lcs_length a b i j)"
proof -
  note cell = filled_cell [OF inv]
  have up: "m ! (i - 1) ! j = spec_lcs_length a b (i - 1) j"
    using i j by (intro cell) auto
  have left: "m ! i ! (j - 1) = spec_lcs_length a b i (j - 1)"
    using i j by (intro cell) auto
  have diag: "m ! (i - 1) ! (j - 1) = spec_lcs_length a b (i - 1) (j - 1)"
    using i j by (intro cell) auto
  show ?thesis
    unfolding lcsCell_def up left diag
    using spec_lcs_step [OF i(1) j(1), of a b] by simp
qed

lemma lcsInner_filled:
  "filled (spec_lcs_length a b) (length a) (length b) i j m \<Longrightarrow>
   1 \<le> i \<Longrightarrow> i \<le> length a \<Longrightarrow> 1 \<le> j \<Longrightarrow>
   filled (spec_lcs_length a b) (length a) (length b) (Suc i) 1 (lcsInner a b i j m)"
proof (induction a b i j m rule: lcsInner.induct)
  case (1 str1 str2 i j dp)
  show ?case
  proof (cases "j \<le> length str2")
    case True
    have "lcsCell str1 str2 i j dp = setCell dp i j (spec_lcs_length str1 str2 i j)"
      using "1.prems" True by (intro lcsCell_writes_recurrence)
    then have step: "filled (spec_lcs_length str1 str2) (length str1) (length str2) i (Suc j)
        (lcsCell str1 str2 i j dp)"
      using "1.prems" True by (simp add: filled_setCell)
    have "lcsInner str1 str2 i j dp = lcsInner str1 str2 i (j + 1) (lcsCell str1 str2 i j dp)"
      using True by (subst lcsInner.simps) simp
    then show ?thesis
      using "1.IH" [OF True] step "1.prems" by simp
  next
    case False
    then have same: "lcsInner str1 str2 i j dp = dp"
      by (subst lcsInner.simps) simp
    from False have "length str2 < j"
      by simp
    from filled_next_row [OF "1.prems"(1) this] show ?thesis
      by (simp add: same)
  qed
qed

lemma lcsOuter_filled:
  "filled (spec_lcs_length a b) (length a) (length b) i 1 m \<Longrightarrow> 1 \<le> i \<Longrightarrow>
   \<exists>k. length a < k \<and> filled (spec_lcs_length a b) (length a) (length b) k 1 (lcsOuter a b i m)"
proof (induction a b i m rule: lcsOuter.induct)
  case (1 str1 str2 i dp)
  show ?case
  proof (cases "i \<le> length str1")
    case True
    have row: "filled (spec_lcs_length str1 str2) (length str1) (length str2) (Suc i) 1
        (lcsInner str1 str2 i 1 dp)"
      using "1.prems" True by (intro lcsInner_filled) simp_all
    have "lcsOuter str1 str2 i dp = lcsOuter str1 str2 (i + 1) (lcsInner str1 str2 i 1 dp)"
      using True by (subst lcsOuter.simps) simp
    then show ?thesis
      using "1.IH" [OF True] row by simp
  next
    case False
    then have "lcsOuter str1 str2 i dp = dp"
      by (subst lcsOuter.simps) simp
    with False "1.prems"(1) show ?thesis
      by (intro exI [of _ i]) simp
  qed
qed

lemma lcsTable_filled:
  "\<exists>k. length a < k \<and> filled (spec_lcs_length a b) (length a) (length b) k 1 (lcsTable a b)"
  using lcsOuter_filled [OF lcs_created, of a b] by (simp add: lcsTable_def)

lemma lcsTable_cells:
  assumes "r \<le> length a" "c \<le> length b"
  shows "lcsTable a b ! r ! c = spec_lcs_length a b r c"
proof -
  obtain k where k: "length a < k"
    and full: "filled (spec_lcs_length a b) (length a) (length b) k 1 (lcsTable a b)"
    using lcsTable_filled by blast
  from assms k show ?thesis
    by (intro filled_cell [OF full]) auto
qed

lemma lcsTable_dims: "table_dims (lcsTable a b) (Suc (length a)) (Suc (length b))"
  using lcsTable_filled [of a b] filled_dims by blast

lemma spec_lcs_length_le: "spec_lcs_length a b i j \<le> min i j"
  by (induction a b i j rule: spec_lcs_length.induct) auto

lemma longestCommonSubsequence_recurrence:
  "longestCommonSubsequence a b =
     int (max (length a) (length b)) - int (spec_lcs_length a b (length a) (length b))"
  by (auto simp: longestCommonSubsequence_def Let_def lcsTable_cells)

section \<open>The recurrence of the longest common subsequence\<close>

lemma subseq_snoc_cases:
  assumes "subseq (s @ [x]) (ys @ [y])"
  shows "subseq s ys \<and> (x \<noteq> y \<longrightarrow> subseq (s @ [x]) ys)"
proof -
  from assms obtain s1 s2 where split: "s @ [x] = s1 @ s2" "subseq s1 ys" "subseq s2 [y]"
    by (auto simp: subseq_append_iff)
  show ?thesis
  proof (cases s2)
    case Nil
    with split have whole: "subseq (s @ [x]) ys" by simp
    have "subseq s (s @ [x])" by (simp add: subseq_rev_drop_many)
    from this whole have "subseq s ys"
      by (rule subseq_order.order_trans)
    with whole show ?thesis by simp
  next
    case (Cons z zs)
    with split(3) have "s2 = [y]"
      by (cases zs) (auto simp: subseq_Cons2_iff split: if_splits)
    with split show ?thesis by auto
  qed
qed

lemma subseq_snoc_same: "subseq s ys \<Longrightarrow> subseq (s @ [x]) (ys @ [x])"
  by (rule list_emb_append_mono) simp_all

lemma subseq_snoc_right: "subseq s ys \<Longrightarrow> subseq s (ys @ [y])"
  by (rule subseq_rev_drop_many)

text \<open>
  The value of the recurrence at \<open>(i, j)\<close> is the length of a common subsequence of the
  two prefixes, and no common subsequence of them is longer.
\<close>

lemma spec_lcs_length_longest:
  "i \<le> length a \<Longrightarrow> j \<le> length b \<Longrightarrow>
   (\<exists>s. subseq s (take i a) \<and> subseq s (take j b) \<and> length s = spec_lcs_length a b i j) \<and>
   (\<forall>s. subseq s (take i a) \<and> subseq s (take j b) \<longrightarrow> length s \<le> spec_lcs_length a b i j)"
proof (induction a b i j rule: spec_lcs_length.induct)
  case (1 a b j)
  show ?case by (auto dest: list_emb_Nil2)
next
  case (2 a b i)
  show ?case by (auto dest: list_emb_Nil2)
next
  case (3 a b i j)
  from "3.prems" have i: "i < length a" and j: "j < length b" by simp_all
  have ta: "take (Suc i) a = take i a @ [a ! i]"
    using i by (rule take_Suc_conv_app_nth)
  have tb: "take (Suc j) b = take j b @ [b ! j]"
    using j by (rule take_Suc_conv_app_nth)
  show ?case
  proof (cases "a ! i = b ! j")
    case True
    from "3.IH"(1) [OF True] i j obtain s where s: "subseq s (take i a)" "subseq s (take j b)"
      "length s = spec_lcs_length a b i j"
      and best: "\<And>t. subseq t (take i a) \<Longrightarrow> subseq t (take j b) \<Longrightarrow>
        length t \<le> spec_lcs_length a b i j"
      by auto
    have "subseq (s @ [a ! i]) (take (Suc i) a)" "subseq (s @ [a ! i]) (take (Suc j) b)"
      using s True by (simp_all add: ta tb subseq_snoc_same)
    then have ex: "\<exists>t. subseq t (take (Suc i) a) \<and> subseq t (take (Suc j) b) \<and>
        length t = spec_lcs_length a b (Suc i) (Suc j)"
      using s(3) True by (intro exI [of _ "s @ [a ! i]"]) simp
    have ub: "length t \<le> spec_lcs_length a b (Suc i) (Suc j)"
      if t: "subseq t (take (Suc i) a)" "subseq t (take (Suc j) b)" for t
    proof (cases t rule: rev_cases)
      case Nil
      then show ?thesis by simp
    next
      case (snoc t' x)
      from t have "subseq t' (take i a)" "subseq t' (take j b)"
        unfolding snoc ta tb by (auto dest: subseq_snoc_cases)
      then have "length t' \<le> spec_lcs_length a b i j"
        by (rule best)
      then show ?thesis
        using True snoc by simp
    qed
    from ex ub show ?thesis by blast
  next
    case False
    from "3.IH"(2) [OF False] i j obtain s1 where s1: "subseq s1 (take i a)"
      "subseq s1 (take (Suc j) b)" "length s1 = spec_lcs_length a b i (Suc j)"
      and best1: "\<And>t. subseq t (take i a) \<Longrightarrow> subseq t (take (Suc j) b) \<Longrightarrow>
        length t \<le> spec_lcs_length a b i (Suc j)"
      by auto
    from "3.IH"(3) [OF False] i j obtain s2 where s2: "subseq s2 (take (Suc i) a)"
      "subseq s2 (take j b)" "length s2 = spec_lcs_length a b (Suc i) j"
      and best2: "\<And>t. subseq t (take (Suc i) a) \<Longrightarrow> subseq t (take j b) \<Longrightarrow>
        length t \<le> spec_lcs_length a b (Suc i) j"
      by auto
    have c1: "subseq s1 (take (Suc i) a)"
      using s1(1) by (simp add: ta subseq_snoc_right)
    have c2: "subseq s2 (take (Suc j) b)"
      using s2(2) by (simp add: tb subseq_snoc_right)
    have ex: "\<exists>t. subseq t (take (Suc i) a) \<and> subseq t (take (Suc j) b) \<and>
        length t = spec_lcs_length a b (Suc i) (Suc j)"
    proof (cases "spec_lcs_length a b (Suc i) j \<le> spec_lcs_length a b i (Suc j)")
      case True
      then show ?thesis
        using False c1 s1 by (intro exI [of _ s1]) (simp add: max_def)
    next
      case le: False
      then show ?thesis
        using False c2 s2 by (intro exI [of _ s2]) (simp add: max_def)
    qed
    have ub: "length t \<le> spec_lcs_length a b (Suc i) (Suc j)"
      if t: "subseq t (take (Suc i) a)" "subseq t (take (Suc j) b)" for t
    proof (cases t rule: rev_cases)
      case Nil
      then show ?thesis by simp
    next
      case (snoc t' x)
      show ?thesis
      proof (cases "x = a ! i")
        case True
        with False have "x \<noteq> b ! j" by simp
        with t(2) have "subseq t (take j b)"
          unfolding snoc tb by (auto dest: subseq_snoc_cases)
        with t(1) have "length t \<le> spec_lcs_length a b (Suc i) j"
          by (rule best2)
        then show ?thesis
          using False by simp
      next
        case ne: False
        with t(1) have "subseq t (take i a)"
          unfolding snoc ta by (auto dest: subseq_snoc_cases)
        then have "length t \<le> spec_lcs_length a b i (Suc j)"
          using t(2) by (rule best1)
        then show ?thesis
          using False by simp
      qed
    qed
    from ex ub show ?thesis by blast
  qed
qed

lemma spec_lcs_length_sym: "spec_lcs_length a b i j = spec_lcs_length b a j i"
proof (induction a b i j rule: spec_lcs_length.induct)
  case (1 a b j)
  show ?case by simp
next
  case (2 a b i)
  show ?case by simp
next
  case (3 a b i j)
  show ?case
  proof (cases "a ! i = b ! j")
    case True
    then have "b ! j = a ! i" by simp
    with True "3.IH"(1) [OF True] show ?thesis by simp
  next
    case False
    then have "b ! j \<noteq> a ! i" by auto
    with False "3.IH"(2,3) [OF False] show ?thesis
      by (simp add: max.commute)
  qed
qed

section \<open>The recurrence of the Damerau-Levenshtein distance\<close>

lemma spec_cost_sym: "spec_cost a b i j = spec_cost b a j i"
  by (auto simp: spec_cost_def)

lemma spec_swapped_sym: "spec_swapped a b i j = spec_swapped b a j i"
  by (auto simp: spec_swapped_def)

lemma spec_damerau_levenshtein_sym:
  "spec_damerau_levenshtein a b i j = spec_damerau_levenshtein b a j i"
proof (induction a b i j rule: spec_damerau_levenshtein.induct)
  case (1 a b i j)
  show ?case
  proof (cases "i = 0 \<or> j = 0")
    case True
    then show ?thesis by auto
  next
    case False
    then have pos: "i \<noteq> 0" "j \<noteq> 0" by simp_all
    let ?d = "spec_damerau_levenshtein a b" and ?e = "spec_damerau_levenshtein b a"
    have cost: "spec_cost b a j i = spec_cost a b i j"
      by (rule spec_cost_sym)
    show ?thesis
    proof (cases "spec_swapped a b i j")
      case True
      then have sw: "spec_swapped b a j i"
        by (simp add: spec_swapped_sym)
      note IH = "1.IH"(1-4) [OF pos True]
      have l: "?d i j = min (min (?d (i - 1) j + 1) (min (?d i (j - 1) + 1)
            (?d (i - 1) (j - 1) + spec_cost a b i j))) (?d (i - 2) (j - 2) + spec_cost a b i j)"
        using pos True by (subst spec_damerau_levenshtein.simps) simp
      have r: "?e j i = min (min (?e (j - 1) i + 1) (min (?e j (i - 1) + 1)
            (?e (j - 1) (i - 1) + spec_cost a b i j))) (?e (j - 2) (i - 2) + spec_cost a b i j)"
        using pos sw by (subst spec_damerau_levenshtein.simps) (simp add: cost)
      show ?thesis
        unfolding l r IH by (simp only: min.commute min.left_commute)
    next
      case nsw: False
      then have sw: "\<not> spec_swapped b a j i"
        by (simp add: spec_swapped_sym)
      note IH = "1.IH"(5-7) [OF pos nsw]
      have l: "?d i j = min (?d (i - 1) j + 1) (min (?d i (j - 1) + 1)
            (?d (i - 1) (j - 1) + spec_cost a b i j))"
        using pos nsw by (subst spec_damerau_levenshtein.simps) simp
      have r: "?e j i = min (?e (j - 1) i + 1) (min (?e j (i - 1) + 1)
            (?e (j - 1) (i - 1) + spec_cost a b i j))"
        using pos sw by (subst spec_damerau_levenshtein.simps) (simp add: cost)
      show ?thesis
        unfolding l r IH by (simp only: min.commute min.left_commute)
    qed
  qed
qed

section \<open>Damerau-Levenshtein distance: the distance is the dynamic program\<close>

text \<open>
  C6. The Damerau-Levenshtein metric is the value at \<open>(len(a), len(b))\<close> of the dynamic
  program that adds to the three unit-cost operations of the Levenshtein distance the
  adjacent transposition: when \<open>a[i-1] = b[j-2]\<close> and \<open>a[i-2] = b[j-1]\<close>, cell \<open>(i, j)\<close>
  may also take the value two steps back on the diagonal plus the substitution cost. Every
  cell of the matrix of the source holds the value of that program, and the distance of
  \<open>"ab"\<close> and \<open>"ba"\<close> is 1.
\<close>

theorem damerauLevenshtein_dynamic_program:
  "damerauLevenshtein a b = spec_damerau_levenshtein a b (length a) (length b)
   \<and> (\<forall>i \<le> length a. \<forall>j \<le> length b.
         dlMatrix a b ! i ! j = spec_damerau_levenshtein a b i j)
   \<and> damerauLevenshtein ''ab'' ''ba'' = 1"
proof -
  have v: "damerauLevenshtein ''ab'' ''ba'' = 1" by code_simp
  show ?thesis
    using v damerauLevenshtein_recurrence [of a b] dlMatrix_cells [of _ a _ b] by blast
qed

theorem damerauLevenshtein_dynamic_program_witness:
  "damerauLevenshtein ''ca'' ''abc'' = spec_damerau_levenshtein ''ca'' ''abc'' 2 3
   \<and> damerauLevenshtein ''ca'' ''abc'' = 3
   \<and> dlMatrix ''ca'' ''abc'' ! 1 ! 3 = spec_damerau_levenshtein ''ca'' ''abc'' 1 3
   \<and> dlMatrix ''ca'' ''abc'' ! 1 ! 3 = 2"
proof -
  have len: "length ''ca'' = 2" "length ''abc'' = 3"
    by simp_all
  note t = damerauLevenshtein_dynamic_program [of "''ca''" "''abc''", unfolded len]
  have m: "dlMatrix ''ca'' ''abc'' ! 1 ! 3 = 2" by code_simp
  have d: "damerauLevenshtein ''ca'' ''abc'' = 3" by code_simp
  from t have e: "damerauLevenshtein ''ca'' ''abc'' = spec_damerau_levenshtein ''ca'' ''abc'' 2 3"
    by (rule conjunct1)
  from t have "\<forall>i\<le>2. \<forall>j\<le>3. dlMatrix ''ca'' ''abc'' ! i ! j = spec_damerau_levenshtein ''ca'' ''abc'' i j"
    by blast
  then have c: "dlMatrix ''ca'' ''abc'' ! 1 ! 3 = spec_damerau_levenshtein ''ca'' ''abc'' 1 3"
    by simp
  from e d c m show ?thesis by blast
qed

section \<open>Longest common subsequence distance: the distance and its table\<close>

text \<open>
  C1, as the source has it. The metric is \<open>max(len(a), len(b))\<close> minus the value at
  \<open>(len(a), len(b))\<close> of the standard dynamic program over character equality, which is
  the length of a longest common subsequence of \<open>a\<close> and \<open>b\<close>. The table has
  \<open>len(a) + 1\<close> rows of \<open>len(b) + 1\<close> cells, every cell holds the value of the program, and
  row 0 and column 0 are created as zeros and stay zeros. The distance of \<open>"ABCDGH"\<close> and
  \<open>"AEDFHR"\<close> is 3.
\<close>

theorem longestCommonSubsequence_distance:
  "longestCommonSubsequence a b =
     int (max (length a) (length b)) - int (spec_lcs_length a b (length a) (length b))
   \<and> (\<exists>s. subseq s a \<and> subseq s b \<and> length s = spec_lcs_length a b (length a) (length b))
   \<and> (\<forall>s. subseq s a \<and> subseq s b \<longrightarrow> length s \<le> spec_lcs_length a b (length a) (length b))
   \<and> length (lcsTable a b) = length a + 1
   \<and> (\<forall>i \<le> length a. length (lcsTable a b ! i) = length b + 1)
   \<and> (\<forall>i \<le> length a. \<forall>j \<le> length b. lcsTable a b ! i ! j = spec_lcs_length a b i j)
   \<and> (\<forall>i \<le> length a. lcsCreate a b ! i ! 0 = 0 \<and> lcsTable a b ! i ! 0 = 0)
   \<and> (\<forall>j \<le> length b. lcsCreate a b ! 0 ! j = 0 \<and> lcsTable a b ! 0 ! j = 0)
   \<and> longestCommonSubsequence ''ABCDGH'' ''AEDFHR'' = 3"
proof -
  have dist_eq: "longestCommonSubsequence a b =
      int (max (length a) (length b)) - int (spec_lcs_length a b (length a) (length b))"
    by (rule longestCommonSubsequence_recurrence)
  have longest:
    "(\<exists>s. subseq s a \<and> subseq s b \<and> length s = spec_lcs_length a b (length a) (length b)) \<and>
     (\<forall>s. subseq s a \<and> subseq s b \<longrightarrow> length s \<le> spec_lcs_length a b (length a) (length b))"
    using spec_lcs_length_longest [of "length a" a "length b" b] by simp
  have rows: "length (lcsTable a b) = length a + 1"
    using lcsTable_dims [of a b] by (simp add: table_dims_def)
  have cols: "\<forall>i \<le> length a. length (lcsTable a b ! i) = length b + 1"
    using lcsTable_dims [of a b] by (simp add: table_dims_def)
  have cells: "\<forall>i \<le> length a. \<forall>j \<le> length b. lcsTable a b ! i ! j = spec_lcs_length a b i j"
    by (simp add: lcsTable_cells)
  have col0: "\<forall>i \<le> length a. lcsCreate a b ! i ! 0 = 0 \<and> lcsTable a b ! i ! 0 = 0"
    by (simp add: lcsTable_cells lcsCreate_cells)
  have row0: "\<forall>j \<le> length b. lcsCreate a b ! 0 ! j = 0 \<and> lcsTable a b ! 0 ! j = 0"
    by (simp add: lcsTable_cells lcsCreate_cells)
  have vector: "longestCommonSubsequence ''ABCDGH'' ''AEDFHR'' = 3"
    by code_simp
  from dist_eq longest rows cols cells col0 row0 vector show ?thesis
    by blast
qed

theorem longestCommonSubsequence_distance_witness:
  "subseq ''ADH'' ''ABCDGH'' \<and> subseq ''ADH'' ''AEDFHR''
   \<and> length ''ADH'' \<le> spec_lcs_length ''ABCDGH'' ''AEDFHR'' 6 6
   \<and> longestCommonSubsequence ''ABCDGH'' ''AEDFHR'' =
       int (max 6 6) - int (spec_lcs_length ''ABCDGH'' ''AEDFHR'' 6 6)
   \<and> lcsTable ''ABCDGH'' ''AEDFHR'' ! 6 ! 0 = 0
   \<and> lcsTable ''ABCDGH'' ''AEDFHR'' ! 0 ! 6 = 0
   \<and> lcsTable ''ABCDGH'' ''AEDFHR'' ! 4 ! 3 = spec_lcs_length ''ABCDGH'' ''AEDFHR'' 4 3"
proof -
  have len: "length ''ABCDGH'' = 6" "length ''AEDFHR'' = 6"
    by simp_all
  note t = longestCommonSubsequence_distance [of "''ABCDGH''" "''AEDFHR''", unfolded len]
  have s1: "subseq ''ADH'' ''ABCDGH''" by simp
  have s2: "subseq ''ADH'' ''AEDFHR''" by simp
  from t have "\<forall>s. subseq s ''ABCDGH'' \<and> subseq s ''AEDFHR'' \<longrightarrow>
      length s \<le> spec_lcs_length ''ABCDGH'' ''AEDFHR'' 6 6"
    by blast
  with s1 s2 have bound: "length ''ADH'' \<le> spec_lcs_length ''ABCDGH'' ''AEDFHR'' 6 6"
    by blast
  from t have d: "longestCommonSubsequence ''ABCDGH'' ''AEDFHR'' =
      int (max 6 6) - int (spec_lcs_length ''ABCDGH'' ''AEDFHR'' 6 6)"
    by (rule conjunct1)
  from t have "\<forall>i\<le>6. lcsCreate ''ABCDGH'' ''AEDFHR'' ! i ! 0 = 0 \<and>
      lcsTable ''ABCDGH'' ''AEDFHR'' ! i ! 0 = 0"
    by blast
  then have c0: "lcsTable ''ABCDGH'' ''AEDFHR'' ! 6 ! 0 = 0"
    by simp
  from t have "\<forall>j\<le>6. lcsCreate ''ABCDGH'' ''AEDFHR'' ! 0 ! j = 0 \<and>
      lcsTable ''ABCDGH'' ''AEDFHR'' ! 0 ! j = 0"
    by blast
  then have r0: "lcsTable ''ABCDGH'' ''AEDFHR'' ! 0 ! 6 = 0"
    by simp
  from t have "\<forall>i\<le>6. \<forall>j\<le>6. lcsTable ''ABCDGH'' ''AEDFHR'' ! i ! j =
      spec_lcs_length ''ABCDGH'' ''AEDFHR'' i j"
    by blast
  then have c: "lcsTable ''ABCDGH'' ''AEDFHR'' ! 4 ! 3 = spec_lcs_length ''ABCDGH'' ''AEDFHR'' 4 3"
    by simp
  from s1 s2 bound d c0 r0 c show ?thesis by blast
qed

text \<open>
  C1, as it is stated, has row 0 and column 0 of the table hold the index values
  \<open>0..len\<close>. The table of the source is created with zeros and its loops start at 1:
  for \<open>"ABCDGH"\<close> and \<open>"AEDFHR"\<close> the cells \<open>(0, 6)\<close> and \<open>(6, 0)\<close> hold 0, not 6, when the
  table is created and when it is filled.
\<close>

theorem lcs_table_border_counterexample:
  "lcsCreate ''ABCDGH'' ''AEDFHR'' ! 0 ! 6 \<noteq> 6
   \<and> lcsCreate ''ABCDGH'' ''AEDFHR'' ! 6 ! 0 \<noteq> 6
   \<and> lcsTable ''ABCDGH'' ''AEDFHR'' ! 0 ! 6 \<noteq> 6
   \<and> lcsTable ''ABCDGH'' ''AEDFHR'' ! 6 ! 0 \<noteq> 6"
  by code_simp

section \<open>Jaro-Winkler distance: the scan\<close>

text \<open>
  The inner loop stops at the first position from \<open>j\<close> on that is free and holds the
  character of position \<open>i\<close>, and flags both positions; without such a position below
  \<open>end\<close> it leaves the state as it is.
\<close>

lemma jwScan_result:
  "(jwScan a b i e j st = st \<and>
      (\<forall>j'. j \<le> j' \<and> j' < e \<longrightarrow> str2Matches st ! j' \<or> a ! i \<noteq> b ! j')) \<or>
   (\<exists>j0. j \<le> j0 \<and> j0 < e \<and> \<not> str2Matches st ! j0 \<and> a ! i = b ! j0 \<and>
      (\<forall>j'. j \<le> j' \<and> j' < j0 \<longrightarrow> str2Matches st ! j' \<or> a ! i \<noteq> b ! j') \<and>
      jwScan a b i e j st =
        st\<lparr>str1Matches := (str1Matches st)[i := True],
           str2Matches := (str2Matches st)[j0 := True],
           matches := matches st + 1\<rparr>)"
proof (induction a b i e j st rule: jwScan.induct)
  case (1 str1 str2 i e j st)
  show ?case
  proof (cases "j < e")
    case False
    then have "jwScan str1 str2 i e j st = st"
      by (subst jwScan.simps) simp
    with False show ?thesis by auto
  next
    case True
    show ?thesis
    proof (cases "str2Matches st ! j \<or> str1 ! i \<noteq> str2 ! j")
      case False
      then have "jwScan str1 str2 i e j st =
          st\<lparr>str1Matches := (str1Matches st)[i := True],
             str2Matches := (str2Matches st)[j := True],
             matches := matches st + 1\<rparr>"
        using True by (subst jwScan.simps) simp
      with True False show ?thesis
        by (intro disjI2 exI [of _ j]) auto
    next
      case skip: True
      have unfold: "jwScan str1 str2 i e j st = jwScan str1 str2 i e (j + 1) st"
        using True skip by (subst jwScan.simps) simp
      have range: "j \<le> j' \<longleftrightarrow> j' = j \<or> j + 1 \<le> j'" for j'
        by auto
      from "1.IH" [OF True skip] show ?thesis
      proof
        assume "jwScan str1 str2 i e (j + 1) st = st \<and>
          (\<forall>j'. j + 1 \<le> j' \<and> j' < e \<longrightarrow> str2Matches st ! j' \<or> str1 ! i \<noteq> str2 ! j')"
        with skip unfold show ?thesis
          by (intro disjI1) (auto simp: range)
      next
        assume "\<exists>j0. j + 1 \<le> j0 \<and> j0 < e \<and> \<not> str2Matches st ! j0 \<and> str1 ! i = str2 ! j0 \<and>
          (\<forall>j'. j + 1 \<le> j' \<and> j' < j0 \<longrightarrow> str2Matches st ! j' \<or> str1 ! i \<noteq> str2 ! j') \<and>
          jwScan str1 str2 i e (j + 1) st =
            st\<lparr>str1Matches := (str1Matches st)[i := True],
               str2Matches := (str2Matches st)[j0 := True],
               matches := matches st + 1\<rparr>"
        then obtain j0 where j0: "j + 1 \<le> j0" "j0 < e" "\<not> str2Matches st ! j0"
          "str1 ! i = str2 ! j0"
          "\<forall>j'. j + 1 \<le> j' \<and> j' < j0 \<longrightarrow> str2Matches st ! j' \<or> str1 ! i \<noteq> str2 ! j'"
          "jwScan str1 str2 i e (j + 1) st =
            st\<lparr>str1Matches := (str1Matches st)[i := True],
               str2Matches := (str2Matches st)[j0 := True],
               matches := matches st + 1\<rparr>"
          by blast
        have "\<forall>j'. j \<le> j' \<and> j' < j0 \<longrightarrow> str2Matches st ! j' \<or> str1 ! i \<noteq> str2 ! j'"
          using j0(5) skip by (auto simp: range)
        with j0 unfold show ?thesis
          by (intro disjI2 exI [of _ j0]) auto
      qed
    qed
  qed
qed

lemma jwWindow:
  "nat (max 0 (int i - w)) \<le> j \<and> j < nat (min (int i + w + 1) (int n2)) \<longleftrightarrow>
   j < n2 \<and> int i - w \<le> int j \<and> int j \<le> int i + w"
  by auto

lemma jwMatching_finite:
  assumes "jwMatching a b w i M"
  shows "finite M"
proof -
  have "M \<subseteq> {..<length a} \<times> {..<length b}"
    using assms by (auto simp: jwMatching_def jwCandidate_def)
  then show ?thesis
    by (rule finite_subset) simp
qed

lemma jwMatching_empty: "jwMatching a b w 0 {}"
  by (simp add: jwMatching_def)

lemma jwMatching_keep:
  assumes M: "jwMatching a b w i M" and fl: "jwFlags st M (length a) (length b)"
    and none: "\<forall>q. jwCandidate a b w i q \<longrightarrow> str2Matches st ! q"
  shows "jwMatching a b w (Suc i) M"
  unfolding jwMatching_def
proof (intro conjI allI impI)
  fix p q assume "(p, q) \<in> M"
  with M have "jwCandidate a b w p q \<and> p < i"
    unfolding jwMatching_def by blast
  then show "jwCandidate a b w p q" and "p < Suc i"
    by simp_all
next
  fix p q p' q' assume "(p, q) \<in> M" "(p', q') \<in> M"
  with M show "(p = p') = (q = q')"
    unfolding jwMatching_def by blast
next
  fix p q assume c: "jwCandidate a b w p q" and p: "p < Suc i"
  show "(p, q) \<in> M \<or> (\<exists>q'<q. (p, q') \<in> M) \<or> (\<exists>p'<p. (p', q) \<in> M)"
  proof (cases "p < i")
    case True
    with M c show ?thesis
      unfolding jwMatching_def by blast
  next
    case False
    with p have pi: "p = i" by simp
    with c none have "str2Matches st ! q" by blast
    moreover from c have "q < length b"
      by (simp add: jwCandidate_def)
    ultimately have "q \<in> Range M"
      using fl by (simp add: jwFlags_def)
    then obtain p' where p': "(p', q) \<in> M" by blast
    with M have "p' < i"
      unfolding jwMatching_def by blast
    with p' pi show ?thesis by blast
  qed
qed

lemma jwMatching_add:
  assumes M: "jwMatching a b w i M" and fl: "jwFlags st M (length a) (length b)"
    and c0: "jwCandidate a b w i j0" and free: "\<not> str2Matches st ! j0"
    and least: "\<forall>q<j0. jwCandidate a b w i q \<longrightarrow> str2Matches st ! q"
  shows "jwMatching a b w (Suc i) (insert (i, j0) M)"
proof -
  have dom: "p < i" if "(p, q) \<in> M" for p q
    using M that unfolding jwMatching_def by blast
  have j0: "j0 < length b"
    using c0 by (simp add: jwCandidate_def)
  have ran: "q \<noteq> j0" if "(p, q) \<in> M" for p q
  proof
    assume "q = j0"
    with that have "j0 \<in> Range M" by blast
    with fl j0 have "str2Matches st ! j0"
      by (simp add: jwFlags_def)
    with free show False by simp
  qed
  show ?thesis
    unfolding jwMatching_def
  proof (intro conjI allI impI)
    fix p q assume in0: "(p, q) \<in> insert (i, j0) M"
    have "jwCandidate a b w p q \<and> p < i" if "(p, q) \<in> M"
      using M that unfolding jwMatching_def by blast
    with in0 c0 show "jwCandidate a b w p q" and "p < Suc i"
      by auto
  next
    fix p q p' q' assume in1: "(p, q) \<in> insert (i, j0) M" and in2: "(p', q') \<in> insert (i, j0) M"
    have old: "(p = p') = (q = q')" if "(p, q) \<in> M" "(p', q') \<in> M"
      using M that unfolding jwMatching_def by blast
    from in1 in2 show "(p = p') = (q = q')"
      using dom ran old by (elim insertE) auto
  next
    fix p q assume c: "jwCandidate a b w p q" and p: "p < Suc i"
    show "(p, q) \<in> insert (i, j0) M \<or> (\<exists>q'<q. (p, q') \<in> insert (i, j0) M) \<or>
        (\<exists>p'<p. (p', q) \<in> insert (i, j0) M)"
    proof (cases "p < i")
      case True
      with M c have "(p, q) \<in> M \<or> (\<exists>q'<q. (p, q') \<in> M) \<or> (\<exists>p'<p. (p', q) \<in> M)"
        unfolding jwMatching_def by blast
      then show ?thesis by blast
    next
      case False
      with p have pi: "p = i" by simp
      consider "q < j0" | "q = j0" | "j0 < q"
        by (rule linorder_cases)
      then show ?thesis
      proof cases
        case 1
        with c pi least have "str2Matches st ! q" by blast
        moreover from c have "q < length b"
          by (simp add: jwCandidate_def)
        ultimately have "q \<in> Range M"
          using fl by (simp add: jwFlags_def)
        then obtain p' where p': "(p', q) \<in> M" by blast
        then have "p' < i" by (rule dom)
        with p' pi show ?thesis by blast
      next
        case 2
        with pi show ?thesis by simp
      next
        case 3
        with pi show ?thesis by blast
      qed
    qed
  qed
qed

lemma jwFlags_add:
  assumes M: "jwMatching a b w i M" and fl: "jwFlags st M (length a) (length b)"
    and i: "i < length a" and j0: "j0 < length b" and free: "\<not> str2Matches st ! j0"
  shows "jwFlags
     (st\<lparr>str1Matches := (str1Matches st)[i := True],
         str2Matches := (str2Matches st)[j0 := True],
         matches := matches st + 1\<rparr>)
     (insert (i, j0) M) (length a) (length b)"
proof -
  have "j0 \<notin> Range M"
    using fl j0 free by (auto simp: jwFlags_def)
  then have new: "(i, j0) \<notin> M" by blast
  have card: "card (insert (i, j0) M) = card M + 1"
    using jwMatching_finite [OF M] new by simp
  have l1: "length (str1Matches st) = length a" and l2: "length (str2Matches st) = length b"
    using fl by (simp_all add: jwFlags_def)
  have f1: "(str1Matches st)[i := True] ! p = (p \<in> Domain (insert (i, j0) M))"
    if "p < length a" for p
    using fl that l1 by (cases "p = i") (auto simp: jwFlags_def)
  have f2: "(str2Matches st)[j0 := True] ! q = (q \<in> Range (insert (i, j0) M))"
    if "q < length b" for q
    using fl that l2 by (cases "q = j0") (auto simp: jwFlags_def)
  show ?thesis
    using fl card f1 f2 by (simp add: jwFlags_def)
qed

text \<open>One turn of the outer loop extends the matching by the row \<open>i\<close>.\<close>

lemma jwScan_step:
  assumes M: "jwMatching a b w i M" and fl: "jwFlags st M (length a) (length b)"
    and i: "i < length a"
  shows "\<exists>M'. jwMatching a b w (Suc i) M' \<and>
     jwFlags (jwScan a b i (nat (min (int i + w + 1) (int (length b))))
                (nat (max 0 (int i - w))) st) M' (length a) (length b)"
proof -
  let ?e = "nat (min (int i + w + 1) (int (length b)))"
  let ?s = "nat (max 0 (int i - w))"
  have window: "jwCandidate a b w i q \<longleftrightarrow> ?s \<le> q \<and> q < ?e \<and> a ! i = b ! q" for q
    using i jwWindow [of i w q "length b"] by (auto simp: jwCandidate_def)
  from jwScan_result [of a b i ?e ?s st] show ?thesis
  proof (elim disjE conjE exE)
    assume same: "jwScan a b i ?e ?s st = st"
      and none: "\<forall>j'. ?s \<le> j' \<and> j' < ?e \<longrightarrow> str2Matches st ! j' \<or> a ! i \<noteq> b ! j'"
    have "\<forall>q. jwCandidate a b w i q \<longrightarrow> str2Matches st ! q"
      using none by (auto simp: window)
    with M fl have "jwMatching a b w (Suc i) M"
      by (rule jwMatching_keep)
    with fl same show ?thesis by auto
  next
    fix j0
    assume j0: "?s \<le> j0" "j0 < ?e" "\<not> str2Matches st ! j0" "a ! i = b ! j0"
      and least: "\<forall>j'. ?s \<le> j' \<and> j' < j0 \<longrightarrow> str2Matches st ! j' \<or> a ! i \<noteq> b ! j'"
      and res: "jwScan a b i ?e ?s st =
        st\<lparr>str1Matches := (str1Matches st)[i := True],
           str2Matches := (str2Matches st)[j0 := True],
           matches := matches st + 1\<rparr>"
    have c0: "jwCandidate a b w i j0"
      using j0 by (simp add: window)
    then have j0b: "j0 < length b"
      by (simp add: jwCandidate_def)
    have "\<forall>q<j0. jwCandidate a b w i q \<longrightarrow> str2Matches st ! q"
      using least by (auto simp: window)
    with M fl c0 j0(3) have "jwMatching a b w (Suc i) (insert (i, j0) M)"
      by (rule jwMatching_add)
    moreover have "jwFlags (jwScan a b i ?e ?s st) (insert (i, j0) M) (length a) (length b)"
      unfolding res using M fl i j0b j0(3) by (rule jwFlags_add)
    ultimately show ?thesis by blast
  qed
qed

lemma jwMatchLoop_matching:
  "jwMatching a b w i M \<Longrightarrow> jwFlags st M (length a) (length b) \<Longrightarrow> i \<le> length a \<Longrightarrow>
   \<exists>M'. jwMatching a b w (length a) M' \<and>
     jwFlags (jwMatchLoop a b w i st) M' (length a) (length b)"
proof (induction a b w i st arbitrary: M rule: jwMatchLoop.induct)
  case (1 str1 str2 matchWindow i st)
  show ?case
  proof (cases "i < length str1")
    case False
    with "1.prems" have "i = length str1" by simp
    moreover from False have "jwMatchLoop str1 str2 matchWindow i st = st"
      by (subst jwMatchLoop.simps) simp
    ultimately show ?thesis
      using "1.prems" by auto
  next
    case True
    let ?e = "nat (min (int i + matchWindow + 1) (int (length str2)))"
    let ?s = "nat (max 0 (int i - matchWindow))"
    from jwScan_step [OF "1.prems"(1,2) True] obtain M' where
      M': "jwMatching str1 str2 matchWindow (Suc i) M'"
        "jwFlags (jwScan str1 str2 i ?e ?s st) M' (length str1) (length str2)"
      by blast
    have unfold: "jwMatchLoop str1 str2 matchWindow i st =
        jwMatchLoop str1 str2 matchWindow (i + 1) (jwScan str1 str2 i ?e ?s st)"
      using True by (subst jwMatchLoop.simps) (simp add: Let_def)
    have "\<exists>M''. jwMatching str1 str2 matchWindow (length str1) M'' \<and>
        jwFlags (jwMatchLoop str1 str2 matchWindow (i + 1) (jwScan str1 str2 i ?e ?s st)) M''
          (length str1) (length str2)"
      using M' True by (intro "1.IH" [OF True refl refl, of M']) simp_all
    then show ?thesis
      by (simp add: unfold)
  qed
qed

lemma jwFindMatches_matching:
  "\<exists>M. jwMatching a b (int (max (length a) (length b) div 2) - 1) (length a) M \<and>
     jwFlags (jwFindMatches a b) M (length a) (length b)"
proof -
  let ?w = "int (max (length a) (length b) div 2) - 1"
  let ?st0 = "\<lparr>str1Matches = replicate (length a) False,
              str2Matches = replicate (length b) False, matches = 0\<rparr>"
  have flags: "jwFlags ?st0 {} (length a) (length b)"
    by (simp add: jwFlags_def)
  have "\<exists>M. jwMatching a b ?w (length a) M \<and>
      jwFlags (jwMatchLoop a b ?w 0 ?st0) M (length a) (length b)"
    by (rule jwMatchLoop_matching [OF jwMatching_empty flags]) simp
  then show ?thesis
    by (simp add: jwFindMatches_def Let_def)
qed

section \<open>Jaro-Winkler distance: the matching does not depend on the order of the strings\<close>

lemma jwMatching_step:
  assumes A: "jwMatching a b w n A" and B: "jwMatching a b w n B"
    and IH: "\<And>p' q'. p' + q' < p + q \<Longrightarrow> (p', q') \<in> B \<Longrightarrow> (p', q') \<in> A"
    and pq: "(p, q) \<in> A"
  shows "(p, q) \<in> B"
proof -
  from A pq have c: "jwCandidate a b w p q" "p < n"
    unfolding jwMatching_def by blast+
  have inj: "(p1 = p2) = (q1 = q2)" if "(p1, q1) \<in> A" "(p2, q2) \<in> A" for p1 q1 p2 q2
    using A that unfolding jwMatching_def by blast
  from B c have "(p, q) \<in> B \<or> (\<exists>q'<q. (p, q') \<in> B) \<or> (\<exists>p'<p. (p', q) \<in> B)"
    unfolding jwMatching_def by blast
  then show ?thesis
  proof (elim disjE exE conjE)
    fix q' assume q': "q' < q" "(p, q') \<in> B"
    then have "(p, q') \<in> A"
      by (intro IH) simp_all
    with pq inj [of p q p q'] q'(1) show ?thesis by simp
  next
    fix p' assume p': "p' < p" "(p', q) \<in> B"
    then have "(p', q) \<in> A"
      by (intro IH) simp_all
    with pq inj [of p q p' q] p'(1) show ?thesis by simp
  qed
qed

lemma jwMatching_unique:
  assumes M: "jwMatching a b w n M" and M': "jwMatching a b w n M'"
  shows "M = M'"
proof -
  have "\<forall>p q. p + q = k \<longrightarrow> ((p, q) \<in> M \<longleftrightarrow> (p, q) \<in> M')" for k
  proof (induction k rule: less_induct)
    case (less k)
    show ?case
    proof (intro allI impI iffI)
      fix p q assume k: "p + q = k" and "(p, q) \<in> M"
      with M M' show "(p, q) \<in> M'"
        using less.IH by (intro jwMatching_step [of a b w n M M' p q]) auto
    next
      fix p q assume k: "p + q = k" and "(p, q) \<in> M'"
      with M M' show "(p, q) \<in> M"
        using less.IH by (intro jwMatching_step [of a b w n M' M p q]) auto
    qed
  qed
  then show ?thesis by auto
qed

lemma jwCandidate_sym: "jwCandidate a b w p q = jwCandidate b a w q p"
  by (auto simp: jwCandidate_def)

lemma jwMatching_converse:
  assumes M: "jwMatching a b w (length a) M"
  shows "jwMatching b a w (length b) (M\<inverse>)"
  unfolding jwMatching_def
proof (intro conjI allI impI)
  fix q p assume "(q, p) \<in> M\<inverse>"
  then have "(p, q) \<in> M" by simp
  with M have "jwCandidate a b w p q"
    unfolding jwMatching_def by blast
  then show "jwCandidate b a w q p" and "q < length b"
    by (simp_all add: jwCandidate_def)
next
  fix q p q' p' assume "(q, p) \<in> M\<inverse>" "(q', p') \<in> M\<inverse>"
  then have "(p, q) \<in> M" "(p', q') \<in> M" by simp_all
  with M have "(p = p') = (q = q')"
    unfolding jwMatching_def by blast
  then show "(q = q') = (p = p')" by simp
next
  fix q p assume "jwCandidate b a w q p" "q < length b"
  then have c: "jwCandidate a b w p q" "p < length a"
    by (simp_all add: jwCandidate_def)
  with M have "(p, q) \<in> M \<or> (\<exists>q'<q. (p, q') \<in> M) \<or> (\<exists>p'<p. (p', q) \<in> M)"
    unfolding jwMatching_def by blast
  then show "(q, p) \<in> M\<inverse> \<or> (\<exists>p'<p. (q, p') \<in> M\<inverse>) \<or> (\<exists>q'<q. (q', p) \<in> M\<inverse>)"
    by auto
qed

lemma card_converse_rel: "card (M\<inverse>) = card M"
proof -
  have "M\<inverse> = (\<lambda>(p, q). (q, p)) ` M"
    by force
  moreover have "inj_on (\<lambda>(p, q). (q, p)) M"
    by (auto simp: inj_on_def)
  ultimately show ?thesis
    by (simp add: card_image)
qed

text \<open>
  The scan over \<open>b\<close> and \<open>a\<close> flags the positions that the scan over \<open>a\<close> and \<open>b\<close> flags,
  and counts as many matches.
\<close>

lemma jwFindMatches_sym:
  "str1Matches (jwFindMatches b a) = str2Matches (jwFindMatches a b) \<and>
   str2Matches (jwFindMatches b a) = str1Matches (jwFindMatches a b) \<and>
   matches (jwFindMatches b a) = matches (jwFindMatches a b)"
proof -
  let ?w = "int (max (length a) (length b) div 2) - 1"
  have w: "int (max (length b) (length a) div 2) - 1 = ?w"
    by (simp add: max.commute)
  obtain M where M: "jwMatching a b ?w (length a) M"
    and fl: "jwFlags (jwFindMatches a b) M (length a) (length b)"
    using jwFindMatches_matching [of a b] by blast
  obtain M' where M': "jwMatching b a ?w (length b) M'"
    and fl': "jwFlags (jwFindMatches b a) M' (length b) (length a)"
    using jwFindMatches_matching [of b a] unfolding w by blast
  have eq: "M' = M\<inverse>"
    using M' jwMatching_converse [OF M] by (rule jwMatching_unique)
  have one: "str1Matches (jwFindMatches b a) = str2Matches (jwFindMatches a b)"
  proof (rule nth_equalityI)
    show "length (str1Matches (jwFindMatches b a)) = length (str2Matches (jwFindMatches a b))"
      using fl fl' by (simp add: jwFlags_def)
  next
    fix q assume "q < length (str1Matches (jwFindMatches b a))"
    then have "q < length b"
      using fl' by (simp add: jwFlags_def)
    then show "str1Matches (jwFindMatches b a) ! q = str2Matches (jwFindMatches a b) ! q"
      using fl fl' by (simp add: jwFlags_def eq)
  qed
  have two: "str2Matches (jwFindMatches b a) = str1Matches (jwFindMatches a b)"
  proof (rule nth_equalityI)
    show "length (str2Matches (jwFindMatches b a)) = length (str1Matches (jwFindMatches a b))"
      using fl fl' by (simp add: jwFlags_def)
  next
    fix p assume "p < length (str2Matches (jwFindMatches b a))"
    then have "p < length a"
      using fl' by (simp add: jwFlags_def)
    then show "str2Matches (jwFindMatches b a) ! p = str1Matches (jwFindMatches a b) ! p"
      using fl fl' by (simp add: jwFlags_def eq)
  qed
  have three: "matches (jwFindMatches b a) = matches (jwFindMatches a b)"
    using fl fl' by (simp add: jwFlags_def eq card_converse_rel)
  from one two three show ?thesis by blast
qed

section \<open>Jaro-Winkler distance: the transpositions\<close>

lemma jwCount_Domain:
  assumes M: "jwMatching a b w n M" and fl: "jwFlags st M (length a) (length b)"
  shows "jwCount (str1Matches st) = card M" and "jwCount (str2Matches st) = card M"
proof -
  have fin: "finite M"
    using M by (rule jwMatching_finite)
  have cand: "p < length a \<and> q < length b" if "(p, q) \<in> M" for p q
    using M that unfolding jwMatching_def jwCandidate_def by blast
  have inj: "(p = p') = (q = q')" if "(p, q) \<in> M" "(p', q') \<in> M" for p q p' q'
    using M that unfolding jwMatching_def by blast
  have "{p. p < length (str1Matches st) \<and> str1Matches st ! p} = fst ` M"
    using fl cand by (force simp: jwFlags_def Domain_fst)
  moreover have "inj_on fst M"
    using inj by (auto simp: inj_on_def)
  ultimately show "jwCount (str1Matches st) = card M"
    by (simp add: jwCount_def length_filter_conv_card card_image)
  have "{q. q < length (str2Matches st) \<and> str2Matches st ! q} = snd ` M"
    using fl cand by (force simp: jwFlags_def Range_snd)
  moreover have "inj_on snd M"
    using inj by (auto simp: inj_on_def)
  ultimately show "jwCount (str2Matches st) = card M"
    by (simp add: jwCount_def length_filter_conv_card card_image)
qed

lemma jwMatched_drop:
  assumes "i < length s" "length ms = length s"
  shows "jwMatched (drop i s) (drop i ms) =
      (if ms ! i then [s ! i] else []) @ jwMatched (drop (Suc i) s) (drop (Suc i) ms)"
proof -
  have "drop i s = s ! i # drop (Suc i) s" "drop i ms = ms ! i # drop (Suc i) ms"
    using assms by (simp_all add: Cons_nth_drop_Suc)
  then show ?thesis
    by (simp add: jwMatched_def)
qed

lemma jwCount_drop:
  assumes "i < length ms"
  shows "jwCount (drop i ms) = (if ms ! i then 1 else 0) + jwCount (drop (Suc i) ms)"
proof -
  have "drop i ms = ms ! i # drop (Suc i) ms"
    using assms by (simp add: Cons_nth_drop_Suc)
  then show ?thesis
    by (simp add: jwCount_def)
qed

lemma jwCount_drop_beyond: "length ms \<le> i \<Longrightarrow> jwCount (drop i ms) = 0"
  by (simp add: jwCount_def)

text \<open>Where a flag is still to come, the \<^verbatim>\<open>while\<close> loop stops at the next one.\<close>

lemma skipUnmatched_next:
  "0 < jwCount (drop k ms) \<Longrightarrow> length ms = length s \<Longrightarrow>
   \<exists>k'. skipUnmatched ms k = Some k' \<and> k \<le> k' \<and> k' < length ms \<and> ms ! k' \<and>
      jwMatched (drop k s) (drop k ms) = jwMatched (drop k' s) (drop k' ms) \<and>
      jwCount (drop k ms) = jwCount (drop k' ms)"
proof (induction "length ms - k" arbitrary: k)
  case 0
  then have "jwCount (drop k ms) = 0"
    by (intro jwCount_drop_beyond) simp
  with "0.prems"(1) show ?case by simp
next
  case (Suc d)
  then have k: "k < length ms" by simp
  show ?case
  proof (cases "ms ! k")
    case True
    with k have "skipUnmatched ms k = Some k"
      by (subst skipUnmatched.simps) simp
    with k True show ?thesis by blast
  next
    case False
    have unfold: "skipUnmatched ms k = skipUnmatched ms (k + 1)"
      using False by (subst skipUnmatched.simps) simp
    have cnt: "jwCount (drop k ms) = jwCount (drop (Suc k) ms)"
      using jwCount_drop [OF k] False by simp
    have chars: "jwMatched (drop k s) (drop k ms) = jwMatched (drop (Suc k) s) (drop (Suc k) ms)"
      using jwMatched_drop [of k s ms] k False Suc.prems by simp
    have "d = length ms - Suc k"
      using Suc.hyps(2) by simp
    from Suc.hyps(1) [OF this] Suc.prems cnt
    obtain k' where "skipUnmatched ms (Suc k) = Some k'" "Suc k \<le> k'" "k' < length ms" "ms ! k'"
      "jwMatched (drop (Suc k) s) (drop (Suc k) ms) = jwMatched (drop k' s) (drop k' ms)"
      "jwCount (drop (Suc k) ms) = jwCount (drop k' ms)"
      by auto
    with unfold cnt chars show ?thesis
      by (intro exI [of _ k']) simp
  qed
qed

lemma jwMismatches_Cons:
  "jwMismatches (x # xs) (y # ys) = (if x \<noteq> y then 1 else 0) + jwMismatches xs ys"
  by (simp add: jwMismatches_def)

lemma jwMismatches_Nil [simp]: "jwMismatches [] ys = 0"
  by (simp add: jwMismatches_def)

lemma jwMismatches_sym: "jwMismatches xs ys = jwMismatches ys xs"
proof -
  have "zip ys xs = map (\<lambda>(x, y). (y, x)) (zip xs ys)"
    by (rule zip_commute)
  then have "filter (\<lambda>(y, x). y \<noteq> x) (zip ys xs) =
      map (\<lambda>(x, y). (y, x)) (filter (\<lambda>(x, y). x \<noteq> y) (zip xs ys))"
    by (simp add: filter_map comp_def case_prod_unfold eq_commute)
  then show ?thesis
    by (simp add: jwMismatches_def)
qed

text \<open>
  With as many flags to come in \<open>b\<close> as in \<open>a\<close>, the loop returns, and it has counted the
  positions at which the matched characters of \<open>a\<close> and of \<open>b\<close>, taken in order, differ.
\<close>

lemma jwTranspositions_value:
  "length (str1Matches st) = length a \<Longrightarrow> length (str2Matches st) = length b \<Longrightarrow>
   jwCount (drop i (str1Matches st)) \<le> jwCount (drop k (str2Matches st)) \<Longrightarrow>
   jwTranspositions a b st i k t =
     Some (t + jwMismatches (jwMatched (drop i a) (drop i (str1Matches st)))
                            (jwMatched (drop k b) (drop k (str2Matches st))))"
proof (induction a b st i k t rule: jwTranspositions.induct)
  case (1 str1 str2 st i k t)
  let ?m1 = "str1Matches st" and ?m2 = "str2Matches st"
  show ?case
  proof (cases "i < length str1")
    case False
    then have "jwTranspositions str1 str2 st i k t = Some t"
      by (subst jwTranspositions.simps) simp
    moreover from False have "jwMatched (drop i str1) (drop i ?m1) = []"
      by (simp add: jwMatched_def)
    ultimately show ?thesis by simp
  next
    case True
    then have i1: "i < length ?m1"
      using "1.prems" by simp
    show ?thesis
    proof (cases "?m1 ! i")
      case False
      have unfold: "jwTranspositions str1 str2 st i k t = jwTranspositions str1 str2 st (i + 1) k t"
        using True False by (subst jwTranspositions.simps) simp
      have cnt: "jwCount (drop i ?m1) = jwCount (drop (Suc i) ?m1)"
        using jwCount_drop [OF i1] False by simp
      have chars: "jwMatched (drop i str1) (drop i ?m1) =
          jwMatched (drop (Suc i) str1) (drop (Suc i) ?m1)"
        using jwMatched_drop [of i str1 ?m1] True "1.prems" False by simp
      show ?thesis
        using "1.IH"(1) [OF True] False "1.prems" cnt
        by (simp add: unfold chars)
    next
      case flagged: True
      have cnt: "jwCount (drop i ?m1) = 1 + jwCount (drop (Suc i) ?m1)"
        using jwCount_drop [OF i1] flagged by simp
      have chars: "jwMatched (drop i str1) (drop i ?m1) =
          str1 ! i # jwMatched (drop (Suc i) str1) (drop (Suc i) ?m1)"
        using jwMatched_drop [of i str1 ?m1] True "1.prems" flagged by simp
      have "0 < jwCount (drop k ?m2)"
        using cnt "1.prems"(3) by simp
      from skipUnmatched_next [OF this "1.prems"(2)]
      obtain k' where k': "skipUnmatched ?m2 k = Some k'" "k \<le> k'" "k' < length ?m2" "?m2 ! k'"
        "jwMatched (drop k str2) (drop k ?m2) = jwMatched (drop k' str2) (drop k' ?m2)"
        "jwCount (drop k ?m2) = jwCount (drop k' ?m2)"
        by blast
      have cnt2: "jwCount (drop k' ?m2) = 1 + jwCount (drop (Suc k') ?m2)"
        using jwCount_drop [OF k'(3)] k'(4) by simp
      have chars2: "jwMatched (drop k' str2) (drop k' ?m2) =
          str2 ! k' # jwMatched (drop (Suc k') str2) (drop (Suc k') ?m2)"
        using jwMatched_drop [of k' str2 ?m2] k'(3,4) "1.prems" by simp
      have unfold: "jwTranspositions str1 str2 st i k t =
          jwTranspositions str1 str2 st (i + 1) (k' + 1)
            (if str1 ! i \<noteq> str2 ! k' then t + 1 else t)"
        using True flagged k'(1) by (subst jwTranspositions.simps) simp
      have enough: "jwCount (drop (i + 1) ?m1) \<le> jwCount (drop (k' + 1) ?m2)"
        using "1.prems"(3) cnt cnt2 k'(6) by simp
      have "True = ?m1 ! i" using flagged by simp
      note IH = "1.IH"(2) [OF True _ k'(1) "1.prems"(1,2) enough]
      have "jwTranspositions str1 str2 st (i + 1) (k' + 1)
            (if str1 ! i \<noteq> str2 ! k' then t + 1 else t) =
          Some ((if str1 ! i \<noteq> str2 ! k' then t + 1 else t) +
            jwMismatches (jwMatched (drop (i + 1) str1) (drop (i + 1) ?m1))
              (jwMatched (drop (k' + 1) str2) (drop (k' + 1) ?m2)))"
        using flagged by (intro IH) simp
      then show ?thesis
        by (simp add: unfold chars k'(5) chars2 jwMismatches_Cons)
    qed
  qed
qed

lemma jwPrefix_sym: "jwPrefix a b maxPrefix i p = jwPrefix b a maxPrefix i p"
proof (induction a b maxPrefix i p rule: jwPrefix.induct)
  case (1 str1 str2 maxPrefix i prefixLen)
  show ?case
  proof (cases "i < maxPrefix \<and> str1 ! i = str2 ! i")
    case True
    then have "jwPrefix str1 str2 maxPrefix i prefixLen =
        jwPrefix str1 str2 maxPrefix (i + 1) (prefixLen + 1)"
      by (subst jwPrefix.simps) simp
    moreover from True have "jwPrefix str2 str1 maxPrefix i prefixLen =
        jwPrefix str2 str1 maxPrefix (i + 1) (prefixLen + 1)"
      by (subst jwPrefix.simps) simp
    ultimately show ?thesis
      using "1.IH" True by simp
  next
    case False
    then have "jwPrefix str1 str2 maxPrefix i prefixLen = prefixLen"
      by (subst jwPrefix.simps) auto
    moreover from False have "jwPrefix str2 str1 maxPrefix i prefixLen = prefixLen"
      by (subst jwPrefix.simps) auto
    ultimately show ?thesis by simp
  qed
qed

section \<open>Jaro-Winkler distance: the value\<close>

lemma jwTranspositions_found:
  "jwTranspositions a b (jwFindMatches a b) 0 0 0 =
     Some (jwMismatches (jwMatched a (str1Matches (jwFindMatches a b)))
                        (jwMatched b (str2Matches (jwFindMatches a b))))"
proof -
  obtain w M where M: "jwMatching a b w (length a) M"
    and fl: "jwFlags (jwFindMatches a b) M (length a) (length b)"
    using jwFindMatches_matching [of a b] by blast
  have len: "length (str1Matches (jwFindMatches a b)) = length a"
    "length (str2Matches (jwFindMatches a b)) = length b"
    using fl by (simp_all add: jwFlags_def)
  have "jwCount (drop 0 (str1Matches (jwFindMatches a b))) \<le>
      jwCount (drop 0 (str2Matches (jwFindMatches a b)))"
    using jwCount_Domain [OF M fl] by simp
  from jwTranspositions_value [OF len this, of 0] show ?thesis
    by simp
qed

lemma jwTranspositions_sym:
  "jwTranspositions b a (jwFindMatches b a) 0 0 0 =
   jwTranspositions a b (jwFindMatches a b) 0 0 0"
  using jwFindMatches_sym [of b a]
  by (simp add: jwTranspositions_found jwMismatches_sym [of "jwMatched b _"])

lemma jaroWinkler_sym: "jaroWinkler a b = jaroWinkler b a"
proof (cases "a = b")
  case True
  then show ?thesis by simp
next
  case False
  then have ne: "b \<noteq> a" by simp
  have m: "matches (jwFindMatches b a) = matches (jwFindMatches a b)"
    using jwFindMatches_sym [of b a] by simp
  have p: "jwPrefix b a (min 4 (min (length b) (length a))) 0 0 =
      jwPrefix a b (min 4 (min (length a) (length b))) 0 0"
    by (simp add: jwPrefix_sym [of b a] min.commute)
  show ?thesis
    unfolding jaroWinkler_def [of a b] jaroWinkler_def [of b a] Let_def m p jwTranspositions_sym
    using False ne by (auto split: option.splits simp: add.commute)
qed

lemma jaroWinkler_total: "\<exists>d. jaroWinkler a b = Some d"
  by (simp add: jaroWinkler_def Let_def jwTranspositions_found)

section \<open>Symmetry\<close>

lemma levenshtein_Nil2 [simp]: "levenshtein a [] = length a"
  by (cases a) simp_all

lemma levenshtein_sym: "levenshtein a b = levenshtein b a"
proof (induction a b rule: levenshtein.induct)
  case (1 b)
  show ?case by simp
next
  case (2 x a)
  show ?case by simp
next
  case (3 x a y b)
  have "(if x = y then 0 else 1) = (if y = x then 0 else (1::nat))"
    by auto
  with 3 show ?case
    by (simp add: min.commute min.left_commute)
qed

lemma hammingDistance_sym: "hammingDistance a b = hammingDistance b a"
proof -
  have "{i. i < max (length a) (length b) \<and>
            padEnd a (max (length a) (length b)) ! i \<noteq> padEnd b (max (length a) (length b)) ! i} =
        {i. i < max (length b) (length a) \<and>
            padEnd b (max (length b) (length a)) ! i \<noteq> padEnd a (max (length b) (length a)) ! i}"
    by (auto simp: max.commute)
  then show ?thesis
    by (simp only: hammingDistance_card)
qed

lemma damerauLevenshtein_sym: "damerauLevenshtein a b = damerauLevenshtein b a"
  by (simp add: damerauLevenshtein_recurrence spec_damerau_levenshtein_sym [of a b])

lemma longestCommonSubsequence_sym:
  "longestCommonSubsequence a b = longestCommonSubsequence b a"
  by (simp add: longestCommonSubsequence_recurrence spec_lcs_length_sym [of a b] max.commute)

text \<open>
  C7. The five distances are symmetric in their two strings: the Levenshtein distance (the
  dynamic program of the specification), the padded Hamming distance, the
  Damerau-Levenshtein distance, the longest common subsequence distance and the
  Jaro-Winkler distance, which returns a value for every two strings.
\<close>

theorem distances_symmetric:
  "levenshtein a b = levenshtein b a
   \<and> hammingDistance a b = hammingDistance b a
   \<and> damerauLevenshtein a b = damerauLevenshtein b a
   \<and> longestCommonSubsequence a b = longestCommonSubsequence b a
   \<and> jaroWinkler a b = jaroWinkler b a
   \<and> (\<exists>d. jaroWinkler a b = Some d)"
  using levenshtein_sym [of a b] hammingDistance_sym [of a b] damerauLevenshtein_sym [of a b]
    longestCommonSubsequence_sym [of a b] jaroWinkler_sym [of a b] jaroWinkler_total [of a b]
  by blast

theorem distances_symmetric_witness:
  "jaroWinkler ''MARTHA'' ''MARHTA'' = Some (7 / 180)
   \<and> jaroWinkler ''MARHTA'' ''MARTHA'' = Some (7 / 180)
   \<and> damerauLevenshtein ''ca'' ''abc'' = 3 \<and> damerauLevenshtein ''abc'' ''ca'' = 3
   \<and> longestCommonSubsequence ''ABCDGH'' ''AEDFHR'' = 3
   \<and> longestCommonSubsequence ''AEDFHR'' ''ABCDGH'' = 3
   \<and> hammingDistance ''ab'' ''abcd'' = 2 \<and> hammingDistance ''abcd'' ''ab'' = 2
   \<and> levenshtein ''ab'' ''bca'' = 3 \<and> levenshtein ''bca'' ''ab'' = 3"
proof -
  have jw: "jaroWinkler ''MARTHA'' ''MARHTA'' = Some (7 / 180)" by code_simp
  have dl: "damerauLevenshtein ''ca'' ''abc'' = 3" by code_simp
  have lcs: "longestCommonSubsequence ''ABCDGH'' ''AEDFHR'' = 3" by code_simp
  have h: "hammingDistance ''ab'' ''abcd'' = 2" by code_simp
  have lev: "levenshtein ''ab'' ''bca'' = 3" by code_simp
  show ?thesis
    using jw dl lcs h lev
      distances_symmetric [of "''MARTHA''" "''MARHTA''"]
      distances_symmetric [of "''ca''" "''abc''"]
      distances_symmetric [of "''ABCDGH''" "''AEDFHR''"]
      distances_symmetric [of "''ab''" "''abcd''"]
      distances_symmetric [of "''ab''" "''bca''"]
    by simp
qed

section \<open>The report\<close>

lemma getDistance_total: "\<exists>d. getDistance distanceMeasure x y = Some d"
  by (simp add: getDistance_def jaroWinkler_total)

lemma reportLoop_result:
  "\<exists>dists.
     map (\<lambda>file. getDistance distanceMeasure (getFileFromBranch execSync branch1 file)
                    (getFileFromBranch execSync branch2 file)) files = map Some dists \<and>
     reportLoop execSync distanceMeasure branch1 branch2 list maxFileLen files total' out =
       (out @ (if list then map (\<lambda>(file, v). Row (padEnd file maxFileLen) v) (zip files dists)
               else []),
        Some (total' + sum_list dists))"
proof (induction files arbitrary: total' out)
  case Nil
  show ?case by simp
next
  case (Cons f fs)
  obtain d where d: "getDistance distanceMeasure (getFileFromBranch execSync branch1 f)
      (getFileFromBranch execSync branch2 f) = Some d"
    using getDistance_total by blast
  let ?out = "if list then out @ [Row (padEnd f maxFileLen) d] else out"
  from Cons.IH [of "total' + d" ?out] obtain vs where
    vs: "map (\<lambda>file. getDistance distanceMeasure (getFileFromBranch execSync branch1 file)
                    (getFileFromBranch execSync branch2 file)) fs = map Some vs"
      "reportLoop execSync distanceMeasure branch1 branch2 list maxFileLen fs (total' + d) ?out =
        (?out @ (if list then map (\<lambda>(file, v). Row (padEnd file maxFileLen) v) (zip fs vs)
                 else []),
         Some (total' + d + sum_list vs))"
    by blast
  show ?case
    using d vs by (intro exI [of _ "d # vs"]) (simp add: Let_def add.assoc)
qed

lemma report_result:
  "\<exists>dists.
     map (\<lambda>file. getDistance distanceMeasure (getFileFromBranch execSync branch1 file)
                    (getFileFromBranch execSync branch2 file)) files = map Some dists \<and>
     report execSync distanceMeasure branch1 branch2 list files =
       (if files = []
        then \<lparr>stdout = [NoChangedFiles], stderr = [], outcome = Exit 0\<rparr>
        else \<lparr>stdout =
                (if list
                 then map (\<lambda>(file, v). Row (padEnd file (maxLength files)) v) (zip files dists) @
                      [Separator (maxLength files + 10)]
                 else []) @ [Total (sum_list dists)],
              stderr = [], outcome = Returned\<rparr>)"
proof -
  from reportLoop_result [of distanceMeasure execSync branch1 branch2 files list
      "if list then maxLength files else 0" 0 "[]"]
  obtain vs where
    vs: "map (\<lambda>file. getDistance distanceMeasure (getFileFromBranch execSync branch1 file)
                    (getFileFromBranch execSync branch2 file)) files = map Some vs"
      "reportLoop execSync distanceMeasure branch1 branch2 list (if list then maxLength files else 0)
         files 0 [] =
        ([] @ (if list then map (\<lambda>(file, v). Row (padEnd file (if list then maxLength files else 0)) v)
                 (zip files vs) else []),
         Some (0 + sum_list vs))"
    by blast
  show ?thesis
    using vs by (intro exI [of _ vs]) (simp add: report_def Let_def)
qed

lemma run_report:
  assumes "args \<noteq> []" "''--help'' \<notin> set args" "''-h'' \<notin> set args"
    and "selectDistanceMeasure args = Inr distanceMeasure"
    and "filter (\<lambda>arg. arg \<noteq> ''--verbose'' \<and> arg \<noteq> ''-V'' \<and> arg \<noteq> ''--list'' \<and>
            arg \<noteq> ''-L'' \<and> arg \<notin> set distanceFlags) args = [branch1, branch2]"
    and "getChangedFiles execSync branch1 branch2 = Inr files"
  shows "run execSync args =
     report execSync distanceMeasure branch1 branch2 (''--list'' \<in> set args \<or> ''-L'' \<in> set args) files"
  using assms by (simp add: run_def Let_def)

lemma run_report_current:
  assumes "args \<noteq> []" "''--help'' \<notin> set args" "''-h'' \<notin> set args"
    and "selectDistanceMeasure args = Inr distanceMeasure"
    and "filter (\<lambda>arg. arg \<noteq> ''--verbose'' \<and> arg \<noteq> ''-V'' \<and> arg \<noteq> ''--list'' \<and>
            arg \<noteq> ''-L'' \<and> arg \<notin> set distanceFlags) args = [branch2]"
    and "getCurrentBranch execSync = Inr branch1"
    and "getChangedFiles execSync branch1 branch2 = Inr files"
  shows "run execSync args =
     report execSync distanceMeasure branch1 branch2 (''--list'' \<in> set args \<or> ''-L'' \<in> set args) files"
  using assms by (simp add: run_def Let_def)

text \<open>
  C2, as the source has it. For the changed files, in their order, the run computes one
  distance per file from the two contents, prints with \<open>--list\<close> one row per file in that
  order, then the separator, and prints as the total the sum of the distances, with their
  signs. The loop alone, over no file, prints no row and leaves the total at 0; but the run
  does not enter it for an empty list of changed files: it prints the notice that no file
  changed and leaves with status 0, so that no row and no total are printed, and this is
  not an error.
\<close>

theorem report_rows_and_total:
  "(\<exists>dists.
      map (\<lambda>file. getDistance distanceMeasure (getFileFromBranch execSync branch1 file)
                     (getFileFromBranch execSync branch2 file)) files = map Some dists \<and>
      report execSync distanceMeasure branch1 branch2 list files =
        (if files = []
         then \<lparr>stdout = [NoChangedFiles], stderr = [], outcome = Exit 0\<rparr>
         else \<lparr>stdout =
                 (if list
                  then map (\<lambda>(file, v). Row (padEnd file (maxLength files)) v) (zip files dists) @
                       [Separator (maxLength files + 10)]
                  else []) @ [Total (sum_list dists)],
               stderr = [], outcome = Returned\<rparr>))
   \<and> reportLoop execSync distanceMeasure branch1 branch2 list maxFileLen [] 0 [] = ([], Some 0)
   \<and> (args \<noteq> [] \<and> ''--help'' \<notin> set args \<and> ''-h'' \<notin> set args \<and>
       selectDistanceMeasure args = Inr distanceMeasure \<and>
       filter (\<lambda>arg. arg \<noteq> ''--verbose'' \<and> arg \<noteq> ''-V'' \<and> arg \<noteq> ''--list'' \<and>
          arg \<noteq> ''-L'' \<and> arg \<notin> set distanceFlags) args = [branch1, branch2] \<and>
       getChangedFiles execSync branch1 branch2 = Inr files \<longrightarrow>
       run execSync args =
         report execSync distanceMeasure branch1 branch2
           (''--list'' \<in> set args \<or> ''-L'' \<in> set args) files)
   \<and> (args \<noteq> [] \<and> ''--help'' \<notin> set args \<and> ''-h'' \<notin> set args \<and>
       selectDistanceMeasure args = Inr distanceMeasure \<and>
       filter (\<lambda>arg. arg \<noteq> ''--verbose'' \<and> arg \<noteq> ''-V'' \<and> arg \<noteq> ''--list'' \<and>
          arg \<noteq> ''-L'' \<and> arg \<notin> set distanceFlags) args = [branch2] \<and>
       getCurrentBranch execSync = Inr branch1 \<and>
       getChangedFiles execSync branch1 branch2 = Inr files \<longrightarrow>
       run execSync args =
         report execSync distanceMeasure branch1 branch2
           (''--list'' \<in> set args \<or> ''-L'' \<in> set args) files)"
proof -
  have empty: "reportLoop execSync distanceMeasure branch1 branch2 list maxFileLen [] 0 [] =
      ([], Some 0)"
    by simp
  show ?thesis
    using report_result [of distanceMeasure execSync branch1 branch2 files list]
      run_report [of args distanceMeasure branch1 branch2 execSync files]
      run_report_current [of args distanceMeasure branch2 execSync branch1 files] empty
    by blast
qed

theorem report_rows_and_total_witness:
  "run gitTwoFiles [''main'', ''dev'', ''--additions'', ''--list''] =
     \<lparr>stdout = [Row ''a.txt '' 3, Row ''bb.txt'' (- 5), Separator 16, Total (- 2)],
      stderr = [], outcome = Returned\<rparr>
   \<and> run gitTwoFiles [''dev''] = \<lparr>stdout = [Total 8], stderr = [], outcome = Returned\<rparr>"
proof -
  let ?args = "[''main'', ''dev'', ''--additions'', ''--list'']"
  let ?files = "[''a.txt'', ''bb.txt'']"
  have files: "getChangedFiles gitTwoFiles ''main'' ''dev'' = Inr ?files"
    by code_simp
  have first: "run gitTwoFiles ?args =
      \<lparr>stdout = [Row ''a.txt '' 3, Row ''bb.txt'' (- 5), Separator 16, Total (- 2)],
       stderr = [], outcome = Returned\<rparr>"
  proof -
    note t = report_rows_and_total
      [of "''--additions''" gitTwoFiles "''main''" "''dev''" ?files True 0 ?args]
    have args: "?args \<noteq> []" "''--help'' \<notin> set ?args" "''-h'' \<notin> set ?args"
      by simp_all
    have flags: "''--list'' \<in> set ?args \<or> ''-L'' \<in> set ?args"
      by simp
    have sel: "selectDistanceMeasure ?args = Inr ''--additions''"
      by code_simp
    have branches: "filter (\<lambda>arg. arg \<noteq> ''--verbose'' \<and> arg \<noteq> ''-V'' \<and> arg \<noteq> ''--list'' \<and>
        arg \<noteq> ''-L'' \<and> arg \<notin> set distanceFlags) ?args = [''main'', ''dev'']"
      by code_simp
    have run: "run gitTwoFiles ?args =
        report gitTwoFiles ''--additions'' ''main'' ''dev'' True ?files"
      using t args flags sel branches files by simp
    have d: "map (\<lambda>file. getDistance ''--additions'' (getFileFromBranch gitTwoFiles ''main'' file)
        (getFileFromBranch gitTwoFiles ''dev'' file)) ?files = [Some 3, Some (- 5)]"
      by code_simp
    have layout: "maxLength ?files = 6" "padEnd ''a.txt'' 6 = ''a.txt ''"
      "padEnd ''bb.txt'' 6 = ''bb.txt''"
      by code_simp+
    from t obtain dists where
      dists: "map (\<lambda>file. getDistance ''--additions'' (getFileFromBranch gitTwoFiles ''main'' file)
          (getFileFromBranch gitTwoFiles ''dev'' file)) ?files = map Some dists"
      and rep: "report gitTwoFiles ''--additions'' ''main'' ''dev'' True ?files =
          (if ?files = []
           then \<lparr>stdout = [NoChangedFiles], stderr = [], outcome = Exit 0\<rparr>
           else \<lparr>stdout =
                   (if True
                    then map (\<lambda>(file, v). Row (padEnd file (maxLength ?files)) v)
                           (zip ?files dists) @
                         [Separator (maxLength ?files + 10)]
                    else []) @ [Total (sum_list dists)],
                 stderr = [], outcome = Returned\<rparr>)"
      by blast
    from dists have "map Some dists = [Some 3, Some (- 5)]"
      unfolding d by simp
    then have "dists = [3, - 5]"
      by (auto simp: map_eq_Cons_conv)
    with rep show ?thesis
      unfolding run by (simp add: layout)
  qed
  have second: "run gitTwoFiles [''dev''] = \<lparr>stdout = [Total 8], stderr = [], outcome = Returned\<rparr>"
  proof -
    note t = report_rows_and_total
      [of "''levenshtein''" gitTwoFiles "''main''" "''dev''" ?files False 0 "[''dev'']"]
    have args: "[''dev''] \<noteq> []" "''--help'' \<notin> set [''dev'']" "''-h'' \<notin> set [''dev'']"
      by simp_all
    have flags: "\<not> (''--list'' \<in> set [''dev''] \<or> ''-L'' \<in> set [''dev''])"
      by simp
    have sel: "selectDistanceMeasure [''dev''] = Inr ''levenshtein''"
      by code_simp
    have branches: "filter (\<lambda>arg. arg \<noteq> ''--verbose'' \<and> arg \<noteq> ''-V'' \<and> arg \<noteq> ''--list'' \<and>
        arg \<noteq> ''-L'' \<and> arg \<notin> set distanceFlags) [''dev''] = [''dev'']"
      by code_simp
    have current: "getCurrentBranch gitTwoFiles = Inr ''main''"
      by code_simp
    have run: "run gitTwoFiles [''dev''] =
        report gitTwoFiles ''levenshtein'' ''main'' ''dev'' False ?files"
      using t args flags sel branches current files by simp
    have d: "map (\<lambda>file. getDistance ''levenshtein'' (getFileFromBranch gitTwoFiles ''main'' file)
        (getFileFromBranch gitTwoFiles ''dev'' file)) ?files = [Some 3, Some 5]"
      by code_simp
    from t obtain dists where
      dists: "map (\<lambda>file. getDistance ''levenshtein'' (getFileFromBranch gitTwoFiles ''main'' file)
          (getFileFromBranch gitTwoFiles ''dev'' file)) ?files = map Some dists"
      and rep: "report gitTwoFiles ''levenshtein'' ''main'' ''dev'' False ?files =
          (if ?files = []
           then \<lparr>stdout = [NoChangedFiles], stderr = [], outcome = Exit 0\<rparr>
           else \<lparr>stdout =
                   (if False
                    then map (\<lambda>(file, v). Row (padEnd file (maxLength ?files)) v)
                           (zip ?files dists) @
                         [Separator (maxLength ?files + 10)]
                    else []) @ [Total (sum_list dists)],
                 stderr = [], outcome = Returned\<rparr>)"
      by blast
    from dists have "map Some dists = [Some 3, Some 5]"
      unfolding d by simp
    then have "dists = [3, 5]"
      by (auto simp: map_eq_Cons_conv)
    with rep show ?thesis
      unfolding run by simp
  qed
  from first second show ?thesis by blast
qed

text \<open>
  C2, as it is stated, has the empty sequence give a total of 0. Between two branches
  that do not differ the run prints the notice only: no total is printed.
\<close>

theorem empty_report_counterexample:
  "run gitNoChanges [''main'', ''dev''] =
     \<lparr>stdout = [NoChangedFiles], stderr = [], outcome = Exit 0\<rparr>
   \<and> Total 0 \<notin> set (stdout (run gitNoChanges [''main'', ''dev'']))"
proof -
  have "run gitNoChanges [''main'', ''dev''] =
      \<lparr>stdout = [NoChangedFiles], stderr = [], outcome = Exit 0\<rparr>"
    by code_simp
  then show ?thesis by simp
qed

end
